theory Spec2Isabelle
  imports Main "HOL-Library.Extended_Nat"
begin

section \<open>Semantic version tuples (utils/semver)\<close>

text \<open>
  A version string is a JavaScript string, modelled as a \<open>string\<close>. A
  \<open>SemverTuple\<close> is the array \<open>[major, minor, patch]\<close> of three numbers, each
  \<^verbatim>\<open>Number\<close> of a run of decimal digits. JavaScript numbers are doubles, so such a
  number is a natural number that a double represents, or \<^verbatim>\<open>Infinity\<close>: it is modelled
  as an \<open>enat\<close>, with \<open>\<infinity>\<close> for \<^verbatim>\<open>Infinity\<close>. On these numbers \<^verbatim>\<open>===\<close> is equality
  and \<^verbatim>\<open>>\<close> is the order of \<open>enat\<close>.
\<close>

type_synonym SemverTuple = "enat \<times> enat \<times> enat"

definition is_digit :: "char \<Rightarrow> bool" where
  "is_digit c \<longleftrightarrow> c \<in> set ''0123456789''"

definition digit_value :: "char \<Rightarrow> nat" where
  "digit_value c = of_char c - 48"

text \<open>The mathematical value of a run of decimal digits, read from the left.\<close>

definition digits_value :: "string \<Rightarrow> nat" where
  "digits_value ds = foldl (\<lambda>n c. 10 * n + digit_value c) 0 ds"

text \<open>The number of binary digits of a natural number.\<close>

fun bit_length :: "nat \<Rightarrow> nat" where
  "bit_length n = (if n = 0 then 0 else Suc (bit_length (n div 2)))"

declare bit_length.simps [simp del]

text \<open>
  The double nearest to a natural number, ties going to the even significand. Below
  \<open>2^53\<close> every natural number is a double. From there on a double keeps the 53 leading
  binary digits \<open>q\<close>, rounded on the remaining \<open>e\<close> digits \<open>r\<close>; a result of \<open>2^1024\<close> or
  more is \<^verbatim>\<open>Infinity\<close>.
\<close>

definition round_double :: "nat \<Rightarrow> enat" where
  "round_double n =
     (if n < 2 ^ 53 then enat n
      else
        let e = bit_length n - 53;
            q = n div 2 ^ e;
            r = n mod 2 ^ e;
            half = 2 ^ (e - 1);
            q' = (if r < half then q else if half < r then q + 1
                  else if even q then q else q + 1)
        in if 2 ^ 1024 \<le> q' * 2 ^ e then \<infinity> else enat (q' * 2 ^ e))"

text \<open>\<^verbatim>\<open>Number\<close> of a run of decimal digits: the double nearest to its value.\<close>

definition Number :: "string \<Rightarrow> enat" where
  "Number ds = round_double (digits_value ds)"

text \<open>
  The regular expression \<^verbatim>\<open>/^(\d+)\.(\d+)\.(\d+)/\<close> is anchored at the start of the
  string. Each group \<^verbatim>\<open>(\d+)\<close> is greedy: it takes the longest run of digits, which must
  not be empty. Giving back digits of the first or second group never helps, since the
  next character would then be a digit where a dot is required; nothing follows the
  third group, so its longest run is the match.
\<close>

definition digit_run :: "string \<Rightarrow> (string \<times> string) option" where
  "digit_run s =
     (if takeWhile is_digit s = [] then None
      else Some (takeWhile is_digit s, dropWhile is_digit s))"

definition literal_dot :: "string \<Rightarrow> string option" where
  "literal_dot s = (case s of [] \<Rightarrow> None | c # r \<Rightarrow> if c = CHR ''.'' then Some r else None)"

definition match_version :: "string \<Rightarrow> (string \<times> string \<times> string) option" where
  "match_version version =
     (case digit_run version of None \<Rightarrow> None | Some (g1, r1) \<Rightarrow>
      case literal_dot r1 of None \<Rightarrow> None | Some r2 \<Rightarrow>
      case digit_run r2 of None \<Rightarrow> None | Some (g2, r3) \<Rightarrow>
      case literal_dot r3 of None \<Rightarrow> None | Some r4 \<Rightarrow>
      case digit_run r4 of None \<Rightarrow> None | Some (g3, r5) \<Rightarrow> Some (g1, g2, g3))"

definition parseSemverTuple :: "string \<Rightarrow> SemverTuple option" where
  "parseSemverTuple version =
     (case match_version version of None \<Rightarrow> None
      | Some (g1, g2, g3) \<Rightarrow> Some (Number g1, Number g2, Number g3))"

text \<open>
  The numbers that a difference of two tuple components can be: an integer that a double
  represents, \<^verbatim>\<open>Infinity\<close>, \<^verbatim>\<open>-Infinity\<close> or \<^verbatim>\<open>NaN\<close>.
\<close>

datatype number = Finite int | PosInfinity | NegInfinity | NaN

text \<open>The double nearest to an integer.\<close>

definition round_difference :: "int \<Rightarrow> number" where
  "round_difference d =
     (if 0 \<le> d
      then (case round_double (nat d) of enat k \<Rightarrow> Finite (int k) | \<infinity> \<Rightarrow> PosInfinity)
      else (case round_double (nat (- d)) of enat k \<Rightarrow> Finite (- int k)
            | \<infinity> \<Rightarrow> NegInfinity))"

text \<open>
  \<^verbatim>\<open>a - b\<close> on two tuple components: the exact difference of two finite numbers,
  rounded to a double; \<^verbatim>\<open>Infinity - Infinity\<close> is \<^verbatim>\<open>NaN\<close>.
\<close>

definition subtract :: "enat \<Rightarrow> enat \<Rightarrow> number" where
  "subtract a b =
     (case a of
        enat m \<Rightarrow> (case b of enat n \<Rightarrow> round_difference (int m - int n)
                   | \<infinity> \<Rightarrow> NegInfinity)
      | \<infinity> \<Rightarrow> (case b of enat n \<Rightarrow> PosInfinity | \<infinity> \<Rightarrow> NaN))"

text \<open>\<^verbatim>\<open>x > 0\<close> and \<^verbatim>\<open>x < 0\<close>; both are false of \<^verbatim>\<open>NaN\<close>.\<close>

definition is_positive :: "number \<Rightarrow> bool" where
  "is_positive x =
     (case x of Finite k \<Rightarrow> 0 < k | PosInfinity \<Rightarrow> True | NegInfinity \<Rightarrow> False
      | NaN \<Rightarrow> False)"

definition is_negative :: "number \<Rightarrow> bool" where
  "is_negative x =
     (case x of Finite k \<Rightarrow> k < 0 | PosInfinity \<Rightarrow> False | NegInfinity \<Rightarrow> True
      | NaN \<Rightarrow> False)"

text \<open>
  \<open>compare\<close> asserts that both strings parse (\<^verbatim>\<open>parseSemverTuple(v1)!\<close>); the assertion
  is erased at run time, and indexing \<^verbatim>\<open>null\<close> raises a \<^verbatim>\<open>TypeError\<close>.
\<close>

datatype error = TypeError

definition compare :: "string \<Rightarrow> string \<Rightarrow> error + number" where
  "compare v1 v2 =
     (case parseSemverTuple v1 of None \<Rightarrow> Inl TypeError | Some (a0, a1, a2) \<Rightarrow>
      case parseSemverTuple v2 of None \<Rightarrow> Inl TypeError | Some (b0, b1, b2) \<Rightarrow>
        Inr (if a0 \<noteq> b0 then subtract a0 b0
             else if a1 \<noteq> b1 then subtract a1 b1
             else subtract a2 b2))"

subsection \<open>The upgrade classifier\<close>

record VersionUpgradeOptions =
  major :: "string option"
  minor :: "string option"
  patch :: "string option"
  prerelease :: "string option"
  latest :: string

text \<open>The three loop variables \<open>maxPatch\<close>, \<open>maxMinor\<close>, \<open>maxMajor\<close>.\<close>

record maxima =
  maxPatch :: "string option"
  maxMinor :: "string option"
  maxMajor :: "string option"

text \<open>A \<^verbatim>\<open>string | undefined\<close> used as a condition: \<^verbatim>\<open>undefined\<close> and the empty
  string are falsy.\<close>

definition truthy :: "string option \<Rightarrow> bool" where
  "truthy m = (case m of None \<Rightarrow> False | Some s \<Rightarrow> s \<noteq> [])"

definition includes_dash :: "string \<Rightarrow> bool" where
  "includes_dash s \<longleftrightarrow> CHR ''-'' \<in> set s"

text \<open>The three tier conditions of the loop, on the tuple of the current version and
  the tuple of a candidate.\<close>

definition patch_tier :: "'a::linorder \<times> 'a \<times> 'a \<Rightarrow> 'a \<times> 'a \<times> 'a \<Rightarrow> bool" where
  "patch_tier c v =
     (case c of (curMajor, curMinor, curPatch) \<Rightarrow> case v of (vMajor, vMinor, vPatch) \<Rightarrow>
        vMajor = curMajor \<and> vMinor = curMinor \<and> vPatch > curPatch)"

definition minor_tier :: "'a::linorder \<times> 'a \<times> 'a \<Rightarrow> 'a \<times> 'a \<times> 'a \<Rightarrow> bool" where
  "minor_tier c v =
     (case c of (curMajor, curMinor, curPatch) \<Rightarrow> case v of (vMajor, vMinor, vPatch) \<Rightarrow>
        vMajor = curMajor \<and> vMinor > curMinor)"

definition major_tier :: "'a::linorder \<times> 'a \<times> 'a \<Rightarrow> 'a \<times> 'a \<times> 'a \<Rightarrow> bool" where
  "major_tier c v =
     (case c of (curMajor, curMinor, curPatch) \<Rightarrow> case v of (vMajor, vMinor, vPatch) \<Rightarrow>
        vMajor > curMajor)"

text \<open>\<^verbatim>\<open>if (!max || compare(ver, max) > 0) max = ver\<close>, for one of the loop variables.\<close>

definition keep_max :: "string \<Rightarrow> string option \<Rightarrow> error + string option" where
  "keep_max ver m =
     (if \<not> truthy m then Inr (Some ver)
      else case m of None \<Rightarrow> Inr (Some ver) | Some best \<Rightarrow>
        (case compare ver best of Inl e \<Rightarrow> Inl e
         | Inr d \<Rightarrow> Inr (if is_positive d then Some ver else m)))"

definition loop_body :: "SemverTuple \<Rightarrow> string \<Rightarrow> maxima \<Rightarrow> error + maxima" where
  "loop_body currentTuple ver st =
     (case parseSemverTuple ver of None \<Rightarrow> Inr st | Some tuple \<Rightarrow>
      if includes_dash ver then Inr st
      else
        case (if patch_tier currentTuple tuple then keep_max ver (maxPatch st)
              else Inr (maxPatch st)) of Inl e \<Rightarrow> Inl e | Inr p \<Rightarrow>
        case (if minor_tier currentTuple tuple then keep_max ver (maxMinor st)
              else Inr (maxMinor st)) of Inl e \<Rightarrow> Inl e | Inr mi \<Rightarrow>
        case (if major_tier currentTuple tuple then keep_max ver (maxMajor st)
              else Inr (maxMajor st)) of Inl e \<Rightarrow> Inl e | Inr ma \<Rightarrow>
        Inr \<lparr>maxPatch = p, maxMinor = mi, maxMajor = ma\<rparr>)"

fun scan :: "SemverTuple \<Rightarrow> string list \<Rightarrow> maxima \<Rightarrow> error + maxima" where
  "scan currentTuple [] st = Inr st"
| "scan currentTuple (ver # allVersions) st =
     (case loop_body currentTuple ver st of Inl e \<Rightarrow> Inl e
      | Inr st' \<Rightarrow> scan currentTuple allVersions st')"

definition no_maxima :: maxima where
  "no_maxima = \<lparr>maxPatch = None, maxMinor = None, maxMajor = None\<rparr>"

text \<open>\<^verbatim>\<open>if (latestTag !== current) { if (max && max !== latestTag) result.tier = max }\<close>\<close>

definition tier_field :: "string \<Rightarrow> string \<Rightarrow> string option \<Rightarrow> string option" where
  "tier_field current latestTag m =
     (if latestTag \<noteq> current \<and> truthy m \<and> m \<noteq> Some latestTag then m else None)"

definition getUpgradeOptions ::
    "string \<Rightarrow> string list \<Rightarrow> string \<Rightarrow> error + VersionUpgradeOptions" where
  "getUpgradeOptions current allVersions latestTag =
     (case parseSemverTuple current of
        None \<Rightarrow>
          Inr \<lparr>major = None, minor = None, patch = None, prerelease = None, latest = latestTag\<rparr>
      | Some currentTuple \<Rightarrow>
          (case scan currentTuple allVersions no_maxima of Inl e \<Rightarrow> Inl e
           | Inr st \<Rightarrow>
               Inr \<lparr>major = tier_field current latestTag (maxMajor st),
                    minor = tier_field current latestTag (maxMinor st),
                    patch = tier_field current latestTag (maxPatch st),
                    prerelease =
                      (if includes_dash latestTag \<and> \<not> includes_dash current
                       then Some latestTag else None),
                    latest = latestTag\<rparr>))"

subsection \<open>Notions used to state the properties\<close>

text \<open>A non-empty run of decimal digits, and a remainder at which such a run ends.\<close>

definition is_run :: "string \<Rightarrow> bool" where
  "is_run d \<longleftrightarrow> d \<noteq> [] \<and> list_all is_digit d"

definition run_ends :: "string \<Rightarrow> bool" where
  "run_ends rest = (case rest of [] \<Rightarrow> True | c # r \<Rightarrow> \<not> is_digit c)"

text \<open>The language of \<^verbatim>\<open>^\d+\.\d+\.\d+\<close>: the string starts with three runs of digits
  separated by dots.\<close>

definition matches_pattern :: "string \<Rightarrow> bool" where
  "matches_pattern s \<longleftrightarrow>
     (\<exists>d1 d2 d3 rest. is_run d1 \<and> is_run d2 \<and> is_run d3 \<and>
        s = d1 @ ''.'' @ d2 @ ''.'' @ d3 @ rest)"

text \<open>The integer that a run of decimal digits denotes: each digit counts for its power
  of ten.\<close>

definition decimal_value :: "string \<Rightarrow> nat" where
  "decimal_value ds = (\<Sum>i<length ds. digit_value (ds ! i) * 10 ^ (length ds - Suc i))"

text \<open>The tuple of a version string as integers: the integers that its three leading
  runs of digits denote.\<close>

definition version_tuple :: "string \<Rightarrow> (nat \<times> nat \<times> nat) option" where
  "version_tuple v =
     (case match_version v of None \<Rightarrow> None
      | Some (g1, g2, g3) \<Rightarrow> Some (decimal_value g1, decimal_value g2, decimal_value g3))"

text \<open>Every component of the tuple is below \<open>2^53\<close>, where the numbers of JavaScript are
  the integers; a version string with such a tuple, or without a tuple.\<close>

definition below_2_53 :: "nat \<times> nat \<times> nat \<Rightarrow> bool" where
  "below_2_53 t = (case t of (a, b, c) \<Rightarrow> a < 2 ^ 53 \<and> b < 2 ^ 53 \<and> c < 2 ^ 53)"

definition small_version :: "string \<Rightarrow> bool" where
  "small_version v = (case version_tuple v of None \<Rightarrow> True | Some t \<Rightarrow> below_2_53 t)"

text \<open>Lexicographic order of tuples, major first, then minor, then patch.\<close>

definition lex_less :: "'a::linorder \<times> 'a \<times> 'a \<Rightarrow> 'a \<times> 'a \<times> 'a \<Rightarrow> bool" where
  "lex_less a b =
     (case a of (a0, a1, a2) \<Rightarrow> case b of (b0, b1, b2) \<Rightarrow>
        a0 < b0 \<or> (a0 = b0 \<and> (a1 < b1 \<or> (a1 = b1 \<and> a2 < b2))))"

text \<open>A candidate of a tier: a version string that parses, has no prerelease marker and
  whose tuple satisfies the tier's condition.\<close>

definition candidate_of :: "(SemverTuple \<Rightarrow> bool) \<Rightarrow> string \<Rightarrow> bool" where
  "candidate_of tier ver =
     (case parseSemverTuple ver of None \<Rightarrow> False
      | Some tuple \<Rightarrow> \<not> includes_dash ver \<and> tier tuple)"

text \<open>The comparator's verdicts, as the loop reads them (\<^verbatim>\<open>compare(u, v) > 0\<close>).\<close>

definition cmp_less :: "string \<Rightarrow> string \<Rightarrow> bool" where
  "cmp_less u v = (case compare u v of Inl e \<Rightarrow> False | Inr d \<Rightarrow> is_negative d)"

definition cmp_greater :: "string \<Rightarrow> string \<Rightarrow> bool" where
  "cmp_greater u v = (case compare u v of Inl e \<Rightarrow> False | Inr d \<Rightarrow> is_positive d)"

text \<open>\<open>first_max tier vs m\<close>: \<open>m\<close> is the first of the greatest candidates of the tier in
  the list \<open>vs\<close>: there is none when the list has no candidate; otherwise every candidate
  before it is smaller under the comparator and no candidate after it is greater.\<close>

definition first_max :: "(SemverTuple \<Rightarrow> bool) \<Rightarrow> string list \<Rightarrow> string option \<Rightarrow> bool" where
  "first_max tier vs m =
     (case m of
        None \<Rightarrow> \<not> list_ex (candidate_of tier) vs
      | Some b \<Rightarrow>
          \<exists>ys zs. vs = ys @ b # zs \<and> candidate_of tier b \<and>
            (\<forall>u \<in> set ys. candidate_of tier u \<longrightarrow> cmp_less u b) \<and>
            (\<forall>u \<in> set zs. candidate_of tier u \<longrightarrow> \<not> cmp_greater u b))"

text \<open>\<open>v\<close> has no prerelease marker, its tuple as integers lies in the tier of the tuple
  of the current version, and is above it in the lexicographic order.\<close>

definition tier_upgrade ::
    "(nat \<times> nat \<times> nat \<Rightarrow> nat \<times> nat \<times> nat \<Rightarrow> bool) \<Rightarrow> string \<Rightarrow> string \<Rightarrow> bool" where
  "tier_upgrade tier current v =
     (case version_tuple current of None \<Rightarrow> False
      | Some c \<Rightarrow>
          (case version_tuple v of None \<Rightarrow> False
           | Some t \<Rightarrow> \<not> includes_dash v \<and> tier c t \<and> lex_less c t))"

text \<open>The order of two version strings by their tuples as integers.\<close>

definition tuple_less :: "string \<Rightarrow> string \<Rightarrow> bool" where
  "tuple_less u v =
     (case version_tuple u of None \<Rightarrow> False
      | Some a \<Rightarrow> (case version_tuple v of None \<Rightarrow> False | Some b \<Rightarrow> lex_less a b))"

text \<open>\<open>first_greatest tier current vs m\<close>: the same as \<open>first_max\<close>, read on the tuples as
  integers: \<open>m\<close> is absent when the list has no upgrade of the tier; otherwise it is an
  upgrade of the tier, every upgrade of the tier before it in the list has a smaller
  tuple, and no upgrade of the tier after it has a greater one.\<close>

definition first_greatest ::
    "(nat \<times> nat \<times> nat \<Rightarrow> nat \<times> nat \<times> nat \<Rightarrow> bool) \<Rightarrow>
     string \<Rightarrow> string list \<Rightarrow> string option \<Rightarrow> bool" where
  "first_greatest tier current vs m =
     (case m of
        None \<Rightarrow> \<not> list_ex (tier_upgrade tier current) vs
      | Some b \<Rightarrow>
          \<exists>ys zs. vs = ys @ b # zs \<and> tier_upgrade tier current b \<and>
            (\<forall>u \<in> set ys. tier_upgrade tier current u \<longrightarrow> tuple_less u b) \<and>
            (\<forall>u \<in> set zs. tier_upgrade tier current u \<longrightarrow> \<not> tuple_less b u))"

text \<open>The effect of one iteration on one loop variable, and the loop variables that hold
  nothing or a string that parses.\<close>

definition tier_step :: "(SemverTuple \<Rightarrow> bool) \<Rightarrow> string \<Rightarrow> string option \<Rightarrow> string option" where
  "tier_step tier ver m =
     (if candidate_of tier ver \<and> (case m of None \<Rightarrow> True | Some b \<Rightarrow> cmp_greater ver b)
      then Some ver else m)"

definition valid_max :: "string option \<Rightarrow> bool" where
  "valid_max m = (case m of None \<Rightarrow> True | Some b \<Rightarrow> parseSemverTuple b \<noteq> None)"

section \<open>Registry metadata (utils/api/package)\<close>

text \<open>The parts of the registry's packument that \<open>getPackageInfo\<close> reads. A
  \<^verbatim>\<open>Record<string, T>\<close> is a finite map of its own properties; where the code walks the
  keys of an object in order (\<^verbatim>\<open>Object.keys\<close>, \<^verbatim>\<open>Object.entries\<close>) the object is the list
  of its entries. The field \<^verbatim>\<open>dist-tags\<close> is written \<open>dist_tags\<close>.\<close>

record Attestations =
  url :: string
  predicateType :: string

record Dist =
  attestations :: "Attestations option"

record PackumentVersion =
  dist :: Dist
  deprecated :: "string option"

record Packument =
  versions :: "(string \<times> PackumentVersion) list"
  time :: "string \<rightharpoonup> string"
  dist_tags :: "(string \<times> string) list"

text \<open>The normalized view. The fields \<open>deprecated\<close> and \<open>versions\<close> of the resolved
  records carry a prime, since the raw records already use the names. A record holds the
  own properties of the object.\<close>

record ResolvedPackumentVersion =
  version :: string
  tag :: "string option"
  hasProvenance :: bool
  deprecated' :: "string option"

record ResolvedPackument =
  versions' :: "string \<rightharpoonup> ResolvedPackumentVersion"

text \<open>The objects that the code indexes by a version string (\<^verbatim>\<open>pkg.time\<close>, parsed from
  JSON, and \<^verbatim>\<open>resolvedVersions\<close>, built by \<^verbatim>\<open>Object.fromEntries\<close>) are plain objects:
  their prototype is \<^verbatim>\<open>Object.prototype\<close>, and a read \<^verbatim>\<open>obj[k]\<close> of a key that is not
  an own property finds the member of \<^verbatim>\<open>Object.prototype\<close> of that name, if there is
  one. These are the names of its members.\<close>

definition Object_prototype :: "string list" where
  "Object_prototype =
     [''constructor'', ''__defineGetter__'', ''__defineSetter__'', ''hasOwnProperty'',
      ''__lookupGetter__'', ''__lookupSetter__'', ''isPrototypeOf'',
      ''propertyIsEnumerable'', ''toString'', ''valueOf'', ''__proto__'',
      ''toLocaleString'']"

definition inherited :: "string \<Rightarrow> bool" where
  "inherited k \<longleftrightarrow> k \<in> set Object_prototype"

text \<open>What a read \<^verbatim>\<open>obj[k]\<close> finds: the own property, else the inherited member (a
  function, or \<^verbatim>\<open>Object.prototype\<close> itself for \<^verbatim>\<open>__proto__\<close>), else \<^verbatim>\<open>undefined\<close>.\<close>

datatype 'v property = Own 'v | Inherited | Undefined

definition get_property :: "(string \<rightharpoonup> 'v) \<Rightarrow> string \<Rightarrow> 'v property" where
  "get_property obj k =
     (case obj k of Some x \<Rightarrow> Own x
      | None \<Rightarrow> if inherited k then Inherited else Undefined)"

text \<open>\<^verbatim>\<open>pkg.time[v]\<close> used as the condition of the filter: a string is truthy unless it is
  empty, a function or an object is truthy, \<^verbatim>\<open>undefined\<close> is falsy.\<close>

definition truthy_property :: "string property \<Rightarrow> bool" where
  "truthy_property p =
     (case p of Own s \<Rightarrow> truthy (Some s) | Inherited \<Rightarrow> True | Undefined \<Rightarrow> False)"

text \<open>\<^verbatim>\<open>Object.fromEntries\<close>: of two entries with the same key the later one stays.\<close>

definition fromEntries :: "('k \<times> 'v) list \<Rightarrow> ('k \<rightharpoonup> 'v)" where
  "fromEntries es = map_of (rev es)"

text \<open>The versions for which \<^verbatim>\<open>pkg.time[v]\<close> is truthy, each with its resolved record. The
  source maps over \<^verbatim>\<open>Object.keys(pkg.versions)\<close> and reads \<^verbatim>\<open>pkg.versions[v]\<close> for each
  key; the model maps over the entries, which pair each key with that value.\<close>

definition resolvedVersions :: "Packument \<Rightarrow> (string \<rightharpoonup> ResolvedPackumentVersion)" where
  "resolvedVersions pkg =
     fromEntries
       (map (\<lambda>(v, pv).
               (v, \<lparr>version = v, tag = None,
                    hasProvenance = (attestations (dist pv) \<noteq> None),
                    deprecated' = deprecated pv\<rparr>))
          (filter (\<lambda>(v, pv). truthy_property (get_property (time pkg) v)) (versions pkg)))"

text \<open>\<^verbatim>\<open>Object.entries(pkg['dist-tags']).forEach(([tag, version]) => { resolvedVersions[version].tag = tag })\<close>:
  when \<^verbatim>\<open>resolvedVersions[version]\<close> is \<^verbatim>\<open>undefined\<close> the assignment raises a
  \<^verbatim>\<open>TypeError\<close> and the loop ends there; when it is an inherited member, the assignment
  sets a property of that member and no resolved version changes.\<close>

fun attach_tags ::
    "(string \<times> string) list \<Rightarrow> (string \<rightharpoonup> ResolvedPackumentVersion) \<Rightarrow>
     error + (string \<rightharpoonup> ResolvedPackumentVersion)" where
  "attach_tags [] rv = Inr rv"
| "attach_tags ((t, v) # rest) rv =
     (case get_property rv v of
        Undefined \<Rightarrow> Inl TypeError
      | Inherited \<Rightarrow> attach_tags rest rv
      | Own r \<Rightarrow> attach_tags rest (rv(v \<mapsto> r\<lparr>tag := Some t\<rparr>)))"

text \<open>The body of \<open>getPackageInfo\<close> after the fetch: from the fetched packument to the
  value the promise resolves with, or the error it rejects with.\<close>

definition resolvePackument :: "Packument \<Rightarrow> error + ResolvedPackument" where
  "resolvePackument pkg =
     (case attach_tags (dist_tags pkg) (resolvedVersions pkg) of Inl e \<Rightarrow> Inl e
      | Inr rv \<Rightarrow> Inr \<lparr>versions' = rv\<rparr>)"

text \<open>The version keys that have a truthy publish time of their own, and the versions
  the distribution tags point at.\<close>

definition surviving :: "Packument \<Rightarrow> string set" where
  "surviving pkg = {v \<in> fst ` set (versions pkg). truthy (time pkg v)}"

definition tag_targets :: "Packument \<Rightarrow> string set" where
  "tag_targets pkg = snd ` set (dist_tags pkg)"

text \<open>No key of \<^verbatim>\<open>pkg.versions\<close> and no target of a distribution tag is the name of a
  member of \<^verbatim>\<open>Object.prototype\<close>.\<close>

definition plain_names :: "Packument \<Rightarrow> bool" where
  "plain_names pkg \<longleftrightarrow>
     list_all (\<lambda>(v, pv). \<not> inherited v) (versions pkg) \<and>
     list_all (\<lambda>(t, v). \<not> inherited v) (dist_tags pkg)"

section \<open>The cache around \<open>getPackageInfo\<close>\<close>

text \<open>Modelled from the spec: the \<^verbatim>\<open>memoize\<close> helper (\<^verbatim>\<open>utils/memoize\<close>) that wraps
  \<open>getPackageInfo\<close>; its code is missing, only its use in \<^verbatim>\<open>utils/api/package\<close> and its
  callers are there. What a call returns: a pending handle (a promise, identified by a
  number) or the resolved value.\<close>

datatype 'v lookup = Pending nat | Resolved 'v

text \<open>Modelled from the spec: the state of the missing \<^verbatim>\<open>memoize\<close> cache. \<open>entries\<close> is the
  cache keyed by package name, \<open>in_flight\<close> maps the handle of every fetch that has not
  settled to its package name, and \<open>requests\<close> lists the fetches initiated so far (the
  handle of a fetch is its position in the list).\<close>

record 'v cache =
  entries :: "string \<rightharpoonup> 'v lookup"
  in_flight :: "nat \<rightharpoonup> string"
  requests :: "string list"

text \<open>Modelled from the spec: the missing cache starts empty.\<close>

definition empty_cache :: "'v cache" where
  "empty_cache = \<lparr>entries = Map.empty, in_flight = Map.empty, requests = []\<rparr>"

text \<open>Modelled from the spec: the missing cache's \<open>get\<close>. A name with an entry returns the
  entry (the pending handle or the resolved value) and changes nothing; a name without
  one initiates a fetch and returns its pending handle.\<close>

definition get :: "string \<Rightarrow> 'v cache \<Rightarrow> 'v lookup \<times> 'v cache" where
  "get name c =
     (case entries c name of
        Some e \<Rightarrow> (e, c)
      | None \<Rightarrow>
          (Pending (length (requests c)),
           c\<lparr>entries := (entries c)(name \<mapsto> Pending (length (requests c))),
             in_flight := (in_flight c)(length (requests c) \<mapsto> name),
             requests := requests c @ [name]\<rparr>))"

text \<open>Modelled from the spec: in the missing cache, a fetch in flight that succeeds leaves
  its value in the cache.\<close>

definition resolve :: "nat \<Rightarrow> 'v \<Rightarrow> 'v cache \<Rightarrow> 'v cache" where
  "resolve h v c =
     (case in_flight c h of
        None \<Rightarrow> c
      | Some name \<Rightarrow>
          c\<lparr>entries := (entries c)(name \<mapsto> Resolved v), in_flight := (in_flight c)(h := None)\<rparr>)"

text \<open>Modelled from the spec: in the missing cache, a fetch in flight that fails leaves no
  entry, so that a later \<open>get\<close> fetches again.\<close>

definition reject :: "nat \<Rightarrow> 'v cache \<Rightarrow> 'v cache" where
  "reject h c =
     (case in_flight c h of
        None \<Rightarrow> c
      | Some name \<Rightarrow>
          c\<lparr>entries := (entries c)(name := None), in_flight := (in_flight c)(h := None)\<rparr>)"

text \<open>Modelled from the spec: what happens to the missing cache, one event at a time. Calls
  and settlements interleave on one thread; a call made while a fetch is in flight is a
  \<open>Get\<close> before the \<open>Resolve\<close> or \<open>Reject\<close> of its handle.\<close>

datatype 'v event = Get string | Resolve nat 'v | Reject nat

text \<open>Modelled from the spec: one event on the missing cache.\<close>

fun step :: "'v event \<Rightarrow> 'v cache \<Rightarrow> 'v cache" where
  "step (Get name) c = snd (get name c)"
| "step (Resolve h v) c = resolve h v c"
| "step (Reject h) c = reject h c"

text \<open>Modelled from the spec: a sequence of events on the missing cache.\<close>

definition run :: "'v event list \<Rightarrow> 'v cache \<Rightarrow> 'v cache" where
  "run evs c = fold step evs c"

text \<open>The event settles the fetch with handle \<open>h\<close>.\<close>

definition settles :: "nat \<Rightarrow> 'v event \<Rightarrow> bool" where
  "settles h ev = (case ev of Get name \<Rightarrow> False | Resolve h' v \<Rightarrow> h' = h | Reject h' \<Rightarrow> h' = h)"

text \<open>Every fetch in flight is the pending entry of its name, and every pending entry is a
  fetch in flight.\<close>

definition cache_inv :: "'v cache \<Rightarrow> bool" where
  "cache_inv c \<longleftrightarrow>
     (\<forall>h name. in_flight c h = Some name \<longrightarrow>
        entries c name = Some (Pending h) \<and> h < length (requests c)) \<and>
     (\<forall>name h. entries c name = Some (Pending h) \<longrightarrow> in_flight c h = Some name)"

section \<open>Parsing\<close>

lemma takeWhile_run:
  assumes "is_run d" "run_ends rest"
  shows "takeWhile is_digit (d @ rest) = d" "dropWhile is_digit (d @ rest) = rest"
proof -
  from assms(1) have all: "\<And>x. x \<in> set d \<Longrightarrow> is_digit x"
    by (simp add: is_run_def list_all_iff)
  from assms(2) have "takeWhile is_digit rest = []" "dropWhile is_digit rest = rest"
    by (cases rest; simp add: run_ends_def)+
  with all show "takeWhile is_digit (d @ rest) = d" "dropWhile is_digit (d @ rest) = rest"
    by (simp_all add: takeWhile_append2 dropWhile_append2)
qed

lemma digit_run_append:
  assumes "is_run d" "run_ends rest"
  shows "digit_run (d @ rest) = Some (d, rest)"
  using assms takeWhile_run [OF assms] by (simp add: digit_run_def is_run_def)

lemma digit_run_Some:
  assumes "digit_run s = Some (g, r)"
  shows "is_run g \<and> run_ends r \<and> s = g @ r"
proof -
  from assms have g: "g = takeWhile is_digit s" and r: "r = dropWhile is_digit s"
    and ne: "g \<noteq> []"
    by (auto simp: digit_run_def split: if_splits)
  have "list_all is_digit g"
    unfolding g list_all_iff by (auto dest: set_takeWhileD)
  moreover have "run_ends r"
    unfolding r run_ends_def by (auto split: list.splits dest: dropWhile_eq_Cons_conv [THEN iffD1])
  moreover have "s = g @ r"
    by (simp add: g r)
  ultimately show ?thesis
    using ne by (simp add: is_run_def)
qed

lemma is_digit_dot [simp]: "\<not> is_digit CHR ''.''"
  by (simp add: is_digit_def)

lemma run_ends_dot [simp]: "run_ends (CHR ''.'' # s)"
  by (simp add: run_ends_def)

lemma literal_dot_Cons [simp]: "literal_dot (CHR ''.'' # s) = Some s"
  by (simp add: literal_dot_def)

lemma literal_dot_Some: "literal_dot s = Some r \<Longrightarrow> s = CHR ''.'' # r"
  by (auto simp: literal_dot_def split: list.splits if_splits)

lemma is_run_takeWhile:
  assumes "is_run d"
  shows "is_run (d @ takeWhile is_digit rest)"
  using assms by (auto simp: is_run_def list_all_iff dest: set_takeWhileD)

lemma run_ends_dropWhile: "run_ends (dropWhile is_digit rest)"
  by (auto simp: run_ends_def split: list.splits dest: dropWhile_eq_Cons_conv [THEN iffD1])

lemma match_version_decomposed:
  assumes "is_run d1" "is_run d2" "is_run d3"
  shows "match_version (d1 @ ''.'' @ d2 @ ''.'' @ d3 @ rest) =
           Some (d1, d2, d3 @ takeWhile is_digit rest)"
proof -
  have r3: "d3 @ rest = (d3 @ takeWhile is_digit rest) @ dropWhile is_digit rest"
    by simp
  have 3: "digit_run (d3 @ rest) =
             Some (d3 @ takeWhile is_digit rest, dropWhile is_digit rest)"
    unfolding r3
    by (rule digit_run_append [OF is_run_takeWhile [OF assms(3)] run_ends_dropWhile])
  have 2: "digit_run (d2 @ CHR ''.'' # d3 @ rest) = Some (d2, CHR ''.'' # d3 @ rest)"
    by (rule digit_run_append [OF assms(2)]) simp
  have 1: "digit_run (d1 @ CHR ''.'' # d2 @ CHR ''.'' # d3 @ rest) =
             Some (d1, CHR ''.'' # d2 @ CHR ''.'' # d3 @ rest)"
    by (rule digit_run_append [OF assms(1)]) simp
  show ?thesis
    by (simp add: match_version_def 1 2 3)
qed

lemma match_version_Some:
  assumes "match_version s = Some (g1, g2, g3)"
  shows "\<exists>rest. is_run g1 \<and> is_run g2 \<and> is_run g3 \<and> run_ends rest \<and>
           s = g1 @ ''.'' @ g2 @ ''.'' @ g3 @ rest"
proof -
  from assms obtain r1 r2 r3 r4 r5 where
    a: "digit_run s = Some (g1, r1)" and b: "literal_dot r1 = Some r2" and
    c: "digit_run r2 = Some (g2, r3)" and d: "literal_dot r3 = Some r4" and
    e: "digit_run r4 = Some (g3, r5)"
    by (auto simp: match_version_def split: option.splits prod.splits)
  from digit_run_Some [OF a] digit_run_Some [OF c] digit_run_Some [OF e]
    literal_dot_Some [OF b] literal_dot_Some [OF d]
  show ?thesis by auto
qed

lemma match_version_None_iff: "match_version s = None \<longleftrightarrow> \<not> matches_pattern s"
proof
  assume n: "match_version s = None"
  show "\<not> matches_pattern s"
  proof
    assume "matches_pattern s"
    then obtain d1 d2 d3 rest where "is_run d1" "is_run d2" "is_run d3"
      "s = d1 @ ''.'' @ d2 @ ''.'' @ d3 @ rest"
      by (auto simp: matches_pattern_def)
    with match_version_decomposed [of d1 d2 d3 rest] n show False by simp
  qed
next
  assume n: "\<not> matches_pattern s"
  show "match_version s = None"
  proof (cases "match_version s")
    case None
    then show ?thesis .
  next
    case (Some g)
    obtain g1 g2 g3 where "g = (g1, g2, g3)" by (cases g)
    with Some match_version_Some [of s g1 g2 g3] n show ?thesis
      by (auto simp: matches_pattern_def)
  qed
qed

lemma parseSemverTuple_None_iff: "parseSemverTuple s = None \<longleftrightarrow> \<not> matches_pattern s"
  using match_version_None_iff [of s]
  by (auto simp: parseSemverTuple_def split: option.splits)

lemma parseSemverTuple_decomposed:
  assumes "is_run d1" "is_run d2" "is_run d3"
  shows "parseSemverTuple (d1 @ ''.'' @ d2 @ ''.'' @ d3 @ rest) =
           Some (Number d1, Number d2, Number (d3 @ takeWhile is_digit rest))"
  by (simp only: parseSemverTuple_def match_version_decomposed [OF assms] option.case prod.case)

section \<open>Numbers\<close>

lemma digits_value_Nil [simp]: "digits_value [] = 0"
  by (simp add: digits_value_def)

lemma digits_value_snoc [simp]: "digits_value (ds @ [c]) = 10 * digits_value ds + digit_value c"
  by (simp add: digits_value_def)

lemma digit_value_digits:
  "map digit_value ''0123456789'' = [0, 1, 2, 3, 4, 5, 6, 7, 8, 9]"
  by (simp add: digit_value_def)

text \<open>Reading a run of digits from the left gives the integer it denotes.\<close>

lemma digits_value_decimal: "digits_value ds = decimal_value ds"
  unfolding decimal_value_def
proof (induction ds rule: rev_induct)
  case Nil
  show ?case by simp
next
  case (snoc c ds)
  have shift: "(\<Sum>i<length ds. digit_value (ds ! i) * 10 ^ (length ds - i)) =
      10 * (\<Sum>i<length ds. digit_value (ds ! i) * 10 ^ (length ds - Suc i))"
    unfolding sum_distrib_left
  proof (rule sum.cong)
    fix i
    assume "i \<in> {..<length ds}"
    then have "length ds - i = Suc (length ds - Suc i)" by auto
    then show "digit_value (ds ! i) * 10 ^ (length ds - i) =
        10 * (digit_value (ds ! i) * 10 ^ (length ds - Suc i))"
      by simp
  qed simp
  have "(\<Sum>i<length (ds @ [c]).
          digit_value ((ds @ [c]) ! i) * 10 ^ (length (ds @ [c]) - Suc i)) =
        (\<Sum>i<length ds. digit_value (ds ! i) * 10 ^ (length ds - i)) + digit_value c"
    by (simp add: nth_append)
  with shift snoc.IH show ?case by simp
qed

lemma bit_length_bound: "0 < n \<Longrightarrow> 2 ^ (bit_length n - 1) \<le> n"
proof (induction n rule: bit_length.induct)
  case (1 n)
  show ?case
  proof (cases "n div 2 = 0")
    case True
    with "1.prems" have "n = 1" by (simp add: div_eq_0_iff)
    then show ?thesis
      by (simp add: bit_length.simps [of "Suc 0"] bit_length.simps [of 0])
  next
    case False
    with "1.IH" "1.prems" have ih: "2 ^ (bit_length (n div 2) - 1) \<le> n div 2" by simp
    from False have pos: "0 < bit_length (n div 2)"
      by (simp add: bit_length.simps [of "n div 2"])
    from "1.prems" have "bit_length n = Suc (bit_length (n div 2))"
      by (simp add: bit_length.simps [of n])
    then have "2 ^ (bit_length n - 1) = 2 * 2 ^ (bit_length (n div 2) - 1)"
      using pos by (cases "bit_length (n div 2)") simp_all
    also have "\<dots> \<le> 2 * (n div 2)" using ih by simp
    also have "\<dots> \<le> n" by simp
    finally show ?thesis .
  qed
qed

text \<open>Below \<open>2^53\<close> nothing is rounded.\<close>

lemma round_double_exact: "n < 2 ^ 53 \<Longrightarrow> round_double n = enat n"
  by (simp add: round_double_def)

lemma Number_exact: "decimal_value ds < 2 ^ 53 \<Longrightarrow> Number ds = enat (decimal_value ds)"
  by (simp add: Number_def digits_value_decimal round_double_exact)

text \<open>Rounding keeps the sign.\<close>

lemma round_double_nonzero:
  assumes "0 < n"
  shows "round_double n \<noteq> enat 0"
proof (cases "n < 2 ^ 53")
  case True
  with assms show ?thesis by (simp add: round_double_def)
next
  case False
  define e where "e = bit_length n - 53"
  have "2 ^ e \<le> (2::nat) ^ (bit_length n - 1)"
    unfolding e_def by (rule power_increasing) simp_all
  also have "\<dots> \<le> n" using assms by (rule bit_length_bound)
  finally have "0 < n div 2 ^ e"
    by (simp add: div_greater_zero_iff)
  then show ?thesis
    using False by (auto simp: round_double_def Let_def e_def)
qed

lemma round_difference_sign:
  "is_positive (round_difference d) \<longleftrightarrow> 0 < d"
  "is_negative (round_difference d) \<longleftrightarrow> d < 0"
proof -
  have z: "round_double 0 = enat 0" by (simp add: round_double_def)
  have p: "round_double (nat k) \<noteq> enat 0" if "0 < k" for k :: int
    using that by (intro round_double_nonzero) simp
  show "is_positive (round_difference d) \<longleftrightarrow> 0 < d"
  proof (cases "0 \<le> d")
    case True
    then show ?thesis
      using p [of d] z
      by (cases "d = 0") (auto simp: round_difference_def is_positive_def split: enat.splits)
  next
    case False
    then show ?thesis
      by (auto simp: round_difference_def is_positive_def split: enat.splits)
  qed
  show "is_negative (round_difference d) \<longleftrightarrow> d < 0"
  proof (cases "0 \<le> d")
    case True
    then show ?thesis
      by (auto simp: round_difference_def is_negative_def split: enat.splits)
  next
    case False
    then show ?thesis
      using p [of "- d"]
      by (auto simp: round_difference_def is_negative_def split: enat.splits)
  qed
qed

lemma subtract_sign:
  "is_positive (subtract a b) \<longleftrightarrow> b < a"
  "is_negative (subtract a b) \<longleftrightarrow> a < b"
proof -
  show "is_positive (subtract a b) \<longleftrightarrow> b < a"
    by (cases a; cases b)
      (simp_all add: subtract_def round_difference_sign(1), simp_all add: is_positive_def)
  show "is_negative (subtract a b) \<longleftrightarrow> a < b"
    by (cases a; cases b)
      (simp_all add: subtract_def round_difference_sign(2), simp_all add: is_negative_def)
qed

lemma round_difference_exact:
  assumes "\<bar>d\<bar> < 2 ^ 53"
  shows "round_difference d = Finite d"
proof -
  from assms have "nat \<bar>d\<bar> < 2 ^ 53"
    by (simp add: nat_less_iff)
  then show ?thesis
    by (cases "0 \<le> d") (auto simp: round_difference_def round_double_exact nat_less_iff)
qed

lemma subtract_exact:
  assumes "m < 2 ^ 53" "n < 2 ^ 53"
  shows "subtract (enat m) (enat n) = Finite (int m - int n)"
proof -
  from assms have "\<bar>int m - int n\<bar> < 2 ^ 53" by (auto simp: abs_if)
  then show ?thesis
    by (simp add: subtract_def round_difference_exact)
qed

text \<open>Facts that evaluate the functions on a given string.\<close>

lemmas evaluation =
  parseSemverTuple_def match_version_def digit_run_def literal_dot_def is_digit_def
  Number_def digits_value_def digit_value_def round_double_def Let_def bit_length.simps
  compare_def subtract_def round_difference_def is_positive_def is_negative_def
  includes_dash_def

lemma version_tuple_digits:
  "version_tuple v =
     (case match_version v of None \<Rightarrow> None
      | Some (g1, g2, g3) \<Rightarrow> Some (digits_value g1, digits_value g2, digits_value g3))"
  by (simp add: version_tuple_def digits_value_decimal split: option.splits prod.splits)

lemmas tuple_evaluation =
  version_tuple_digits match_version_def digit_run_def literal_dot_def is_digit_def
  digits_value_def digit_value_def

text \<open>A version whose tuple is below \<open>2^53\<close> parses to that tuple.\<close>

lemma parseSemverTuple_small:
  assumes "version_tuple v = Some (a, b, c)" "below_2_53 (a, b, c)"
  shows "parseSemverTuple v = Some (enat a, enat b, enat c)"
proof -
  from assms(1) obtain g1 g2 g3 where m: "match_version v = Some (g1, g2, g3)"
    and v: "a = decimal_value g1" "b = decimal_value g2" "c = decimal_value g3"
    by (auto simp: version_tuple_def split: option.splits)
  from assms(2) v have "Number g1 = enat a" "Number g2 = enat b" "Number g3 = enat c"
    by (simp_all add: below_2_53_def Number_exact)
  with m show ?thesis by (simp add: parseSemverTuple_def)
qed

lemma version_tuple_None_iff: "version_tuple v = None \<longleftrightarrow> parseSemverTuple v = None"
  by (simp add: version_tuple_def parseSemverTuple_def split: option.splits)

text \<open>
  Claim C5, as amended. For every string that starts with three runs of decimal digits
  separated by dots (the third run ending where the string ends or a non-digit follows),
  each run denoting an integer below \<open>2^53\<close>, \<open>parseSemverTuple\<close> returns the three
  integers, whatever suffix follows; for every string that does not match
  \<^verbatim>\<open>^\d+\.\d+\.\d+\<close> at its start it returns null, and only for those.
\<close>

theorem parseSemverTuple_spec:
  "(is_run d1 \<and> is_run d2 \<and> is_run d3 \<and> run_ends rest \<and>
    decimal_value d1 < 2 ^ 53 \<and> decimal_value d2 < 2 ^ 53 \<and> decimal_value d3 < 2 ^ 53 \<longrightarrow>
      parseSemverTuple (d1 @ ''.'' @ d2 @ ''.'' @ d3 @ rest) =
        Some (enat (decimal_value d1), enat (decimal_value d2), enat (decimal_value d3))) \<and>
   (\<not> matches_pattern s \<longrightarrow> parseSemverTuple s = None) \<and>
   (parseSemverTuple s = None \<longrightarrow> \<not> matches_pattern s)"
proof (intro conjI impI)
  assume a: "is_run d1 \<and> is_run d2 \<and> is_run d3 \<and> run_ends rest \<and>
    decimal_value d1 < 2 ^ 53 \<and> decimal_value d2 < 2 ^ 53 \<and> decimal_value d3 < 2 ^ 53"
  then have "takeWhile is_digit rest = []"
    by (cases rest) (simp_all add: run_ends_def)
  with a parseSemverTuple_decomposed [of d1 d2 d3 rest]
  show "parseSemverTuple (d1 @ ''.'' @ d2 @ ''.'' @ d3 @ rest) =
          Some (enat (decimal_value d1), enat (decimal_value d2), enat (decimal_value d3))"
    by (simp add: Number_exact)
next
  assume "\<not> matches_pattern s"
  then show "parseSemverTuple s = None"
    by (simp add: parseSemverTuple_None_iff)
next
  assume "parseSemverTuple s = None"
  then show "\<not> matches_pattern s"
    by (simp add: parseSemverTuple_None_iff)
qed

theorem parseSemverTuple_spec_witness:
  "is_run ''1'' \<and> is_run ''22'' \<and> is_run ''333'' \<and> run_ends ''-beta.1'' \<and>
   decimal_value ''1'' = 1 \<and> decimal_value ''22'' = 22 \<and> decimal_value ''333'' = 333 \<and>
   parseSemverTuple ''1.22.333-beta.1'' = Some (enat 1, enat 22, enat 333) \<and>
   \<not> matches_pattern ''latest'' \<and> parseSemverTuple ''latest'' = None"
proof -
  have h: "is_run ''1'' \<and> is_run ''22'' \<and> is_run ''333'' \<and> run_ends ''-beta.1''"
    by (simp add: is_run_def run_ends_def is_digit_def)
  have v: "decimal_value ''1'' = 1" "decimal_value ''22'' = 22" "decimal_value ''333'' = 333"
    by (simp_all add: digits_value_decimal [symmetric] digits_value_def digit_value_def)
  have m: "\<not> matches_pattern ''latest''"
  proof
    assume "matches_pattern ''latest''"
    then obtain d1 r where "is_run d1" "''latest'' = d1 @ r"
      by (auto simp: matches_pattern_def)
    then show False
      by (cases d1) (auto simp: is_run_def is_digit_def)
  qed
  note t = parseSemverTuple_spec [of "''1''" "''22''" "''333''" "''-beta.1''" "''latest''"]
  from t h v have "parseSemverTuple (''1'' @ ''.'' @ ''22'' @ ''.'' @ ''333'' @ ''-beta.1'') =
      Some (enat 1, enat 22, enat 333)"
    by simp
  then have "parseSemverTuple ''1.22.333-beta.1'' = Some (enat 1, enat 22, enat 333)"
    by simp
  moreover from t m have "parseSemverTuple ''latest'' = None"
    by blast
  ultimately show ?thesis
    using h v m by blast
qed

text \<open>From \<open>2^53\<close> on the integer of a run need not come out: the run
  \<open>9007199254740993\<close> is \<open>2^53 + 1\<close>, and its number is \<open>2^53\<close>.\<close>

theorem parseSemverTuple_spec_counterexample:
  "parseSemverTuple ''9007199254740993.0.0'' = Some (enat 9007199254740992, enat 0, enat 0) \<and>
   decimal_value ''9007199254740993'' = 9007199254740993"
  by (simp add: evaluation digits_value_decimal [symmetric])

section \<open>The comparator\<close>

lemma compare_Inr:
  assumes "parseSemverTuple v1 = Some (a0, a1, a2)" "parseSemverTuple v2 = Some (b0, b1, b2)"
  shows "compare v1 v2 =
           Inr (if a0 \<noteq> b0 then subtract a0 b0
                else if a1 \<noteq> b1 then subtract a1 b1 else subtract a2 b2)"
  using assms by (simp add: compare_def)

text \<open>
  Claim C4, as amended. For every pair of version strings that both have a tuple with
  components below \<open>2^53\<close>, \<open>compare\<close> returns an integer whose sign agrees with the
  lexicographic order of the tuples: negative exactly when the first tuple is smaller,
  zero exactly when the tuples are equal, positive exactly when the first tuple is
  larger.
\<close>

theorem compare_sign:
  assumes "version_tuple v1 = Some t1" "version_tuple v2 = Some t2"
    and "below_2_53 t1" "below_2_53 t2"
  shows "\<exists>d. compare v1 v2 = Inr (Finite d) \<and> (d < 0 \<longleftrightarrow> lex_less t1 t2) \<and>
           (d = 0 \<longleftrightarrow> t1 = t2) \<and> (0 < d \<longleftrightarrow> lex_less t2 t1)"
proof -
  obtain a0 a1 a2 where t1: "t1 = (a0, a1, a2)" by (cases t1)
  obtain b0 b1 b2 where t2: "t2 = (b0, b1, b2)" by (cases t2)
  from assms(3,4) have small: "a0 < 2 ^ 53" "a1 < 2 ^ 53" "a2 < 2 ^ 53"
    "b0 < 2 ^ 53" "b1 < 2 ^ 53" "b2 < 2 ^ 53"
    by (simp_all add: t1 t2 below_2_53_def)
  have p1: "parseSemverTuple v1 = Some (enat a0, enat a1, enat a2)"
    using assms(1,3) unfolding t1 by (rule parseSemverTuple_small)
  have p2: "parseSemverTuple v2 = Some (enat b0, enat b1, enat b2)"
    using assms(2,4) unfolding t2 by (rule parseSemverTuple_small)
  have "compare v1 v2 =
           Inr (Finite (if a0 \<noteq> b0 then int a0 - int b0
                else if a1 \<noteq> b1 then int a1 - int b1 else int a2 - int b2))"
    by (simp add: compare_Inr [OF p1 p2] subtract_exact [OF small(1) small(4)]
        subtract_exact [OF small(2) small(5)] subtract_exact [OF small(3) small(6)])
  then show ?thesis
    by (auto simp: t1 t2 lex_less_def)
qed

theorem compare_sign_witness:
  "version_tuple ''1.2.3'' = Some (1, 2, 3) \<and> version_tuple ''1.2.4'' = Some (1, 2, 4) \<and>
   below_2_53 (1, 2, 3) \<and> below_2_53 (1, 2, 4) \<and>
   compare ''1.2.3'' ''1.2.4'' = Inr (Finite (- 1)) \<and> lex_less (1, 2, 3 :: nat) (1, 2, 4) \<and>
   compare ''2.0.0'' ''1.9.9'' = Inr (Finite 1) \<and> lex_less (1, 9, 9 :: nat) (2, 0, 0) \<and>
   compare ''1.0.0'' ''1.0.0'' = Inr (Finite 0)"
proof -
  have p: "version_tuple ''1.2.3'' = Some (1, 2, 3)" "version_tuple ''1.2.4'' = Some (1, 2, 4)"
    "version_tuple ''2.0.0'' = Some (2, 0, 0)" "version_tuple ''1.9.9'' = Some (1, 9, 9)"
    "version_tuple ''1.0.0'' = Some (1, 0, 0)"
    by (simp_all add: tuple_evaluation)
  have b: "below_2_53 (1, 2, 3)" "below_2_53 (1, 2, 4)" "below_2_53 (2, 0, 0)"
    "below_2_53 (1, 9, 9)" "below_2_53 (1, 0, 0)"
    by (simp_all add: below_2_53_def)
  have c: "compare ''1.2.3'' ''1.2.4'' = Inr (Finite (- 1))"
    "compare ''2.0.0'' ''1.9.9'' = Inr (Finite 1)"
    by (simp_all add: evaluation)
  from compare_sign [OF p(1) p(2) b(1) b(2)] c(1)
  have 1: "lex_less (1, 2, 3 :: nat) (1, 2, 4)" by auto
  from compare_sign [OF p(3) p(4) b(3) b(4)] c(2)
  have 2: "lex_less (1, 9, 9 :: nat) (2, 0, 0)" by auto
  from compare_sign [OF p(5) p(5) b(5) b(5)]
  have 3: "compare ''1.0.0'' ''1.0.0'' = Inr (Finite 0)" by auto
  from p b c 1 2 3 show ?thesis by simp
qed

text \<open>The value is the difference of the first components that differ, so it is not
  confined to \<open>-1\<close>, \<open>0\<close>, \<open>1\<close>: \<^verbatim>\<open>compare("3.0.0", "1.0.0")\<close> is \<open>2\<close>. From \<open>2^53\<close> on
  the sign need not follow the integers: the patch components \<open>9007199254740993\<close> and
  \<open>9007199254740992\<close> differ, and \<open>compare\<close> is \<open>0\<close>.\<close>

theorem compare_range_counterexample:
  "compare ''3.0.0'' ''1.0.0'' = Inr (Finite 2) \<and>
   compare ''3.0.0'' ''1.0.0'' \<notin> {Inr (Finite (- 1)), Inr (Finite 0), Inr (Finite 1)} \<and>
   compare ''1.0.9007199254740993'' ''1.0.9007199254740992'' = Inr (Finite 0) \<and>
   version_tuple ''1.0.9007199254740993'' = Some (1, 0, 9007199254740993) \<and>
   version_tuple ''1.0.9007199254740992'' = Some (1, 0, 9007199254740992)"
proof -
  have 1: "compare ''3.0.0'' ''1.0.0'' = Inr (Finite 2)"
    by (simp add: evaluation)
  have 2: "compare ''1.0.9007199254740993'' ''1.0.9007199254740992'' = Inr (Finite 0)"
    by (simp add: evaluation)
  have 3: "version_tuple ''1.0.9007199254740993'' = Some (1, 0, 9007199254740993)"
    "version_tuple ''1.0.9007199254740992'' = Some (1, 0, 9007199254740992)"
    by (simp_all add: tuple_evaluation)
  from 1 2 3 show ?thesis by simp
qed

text \<open>For all version strings that parse, the comparator's verdicts follow the order of
  the tuples that \<open>parseSemverTuple\<close> returns.\<close>

lemma compare_verdict:
  assumes "parseSemverTuple v1 = Some t1" "parseSemverTuple v2 = Some t2"
  shows "\<exists>d. compare v1 v2 = Inr d \<and> (is_negative d \<longleftrightarrow> lex_less t1 t2) \<and>
           (is_positive d \<longleftrightarrow> lex_less t2 t1)"
proof -
  obtain a0 a1 a2 where t1: "t1 = (a0, a1, a2)" by (cases t1)
  obtain b0 b1 b2 where t2: "t2 = (b0, b1, b2)" by (cases t2)
  show ?thesis
    using compare_Inr [OF assms [unfolded t1 t2]]
    by (auto simp: t1 t2 lex_less_def subtract_sign)
qed

lemma cmp_less_iff:
  assumes "parseSemverTuple u = Some tu" "parseSemverTuple v = Some tv"
  shows "cmp_less u v \<longleftrightarrow> lex_less tu tv" "cmp_greater u v \<longleftrightarrow> lex_less tv tu"
  using compare_verdict [OF assms] by (auto simp: cmp_less_def cmp_greater_def)

lemma lex_less_trans: "lex_less a b \<Longrightarrow> lex_less b c \<Longrightarrow> lex_less a c"
  by (auto simp: lex_less_def split: prod.splits)

lemma lex_less_le_trans: "\<not> lex_less b a \<Longrightarrow> lex_less b c \<Longrightarrow> lex_less a c"
  by (auto simp: lex_less_def split: prod.splits)

lemma tier_lex_less:
  "patch_tier c v \<Longrightarrow> lex_less c v"
  "minor_tier c v \<Longrightarrow> lex_less c v"
  "major_tier c v \<Longrightarrow> lex_less c v"
  by (auto simp: patch_tier_def minor_tier_def major_tier_def lex_less_def split: prod.splits)

section \<open>The loop over the candidates\<close>

lemma candidate_parses: "candidate_of tier v \<Longrightarrow> \<exists>t. parseSemverTuple v = Some t"
  by (auto simp: candidate_of_def split: option.splits)

lemma parseSemverTuple_Nil [simp]: "parseSemverTuple [] = None"
  by (simp add: parseSemverTuple_def match_version_def digit_run_def)

lemma keep_max_None [simp]: "keep_max ver None = Inr (Some ver)"
  by (simp add: keep_max_def truthy_def)

lemma keep_max_Some:
  assumes "parseSemverTuple ver = Some t" "parseSemverTuple b = Some tb"
  shows "keep_max ver (Some b) = Inr (if cmp_greater ver b then Some ver else Some b)"
proof -
  from assms(2) have "b \<noteq> []" by auto
  moreover obtain d where "compare ver b = Inr d"
    using compare_verdict [OF assms] by blast
  ultimately show ?thesis
    by (simp add: keep_max_def truthy_def cmp_greater_def)
qed

lemma keep_max_tier_step:
  assumes "parseSemverTuple ver = Some t" "\<not> includes_dash ver" "valid_max m"
  shows "(if tier t then keep_max ver m else Inr m) = Inr (tier_step tier ver m)"
proof (cases m)
  case None
  with assms show ?thesis by (simp add: tier_step_def candidate_of_def)
next
  case (Some b)
  with assms(3) obtain tb where "parseSemverTuple b = Some tb"
    by (auto simp: valid_max_def)
  from keep_max_Some [OF assms(1) this] assms(1,2) Some show ?thesis
    by (simp add: tier_step_def candidate_of_def)
qed

lemma tier_step_not_candidate: "\<not> candidate_of tier ver \<Longrightarrow> tier_step tier ver m = m"
  by (simp add: tier_step_def)

lemma loop_body_step:
  assumes "valid_max (maxPatch st)" "valid_max (maxMinor st)" "valid_max (maxMajor st)"
  shows "loop_body c ver st =
           Inr \<lparr>maxPatch = tier_step (patch_tier c) ver (maxPatch st),
                maxMinor = tier_step (minor_tier c) ver (maxMinor st),
                maxMajor = tier_step (major_tier c) ver (maxMajor st)\<rparr>"
proof (cases "parseSemverTuple ver")
  case None
  then have "\<And>tier. \<not> candidate_of tier ver" by (simp add: candidate_of_def)
  with None show ?thesis
    by (simp add: loop_body_def tier_step_not_candidate)
next
  case (Some t)
  show ?thesis
  proof (cases "includes_dash ver")
    case True
    then have "\<And>tier. \<not> candidate_of tier ver"
      by (simp add: candidate_of_def split: option.splits)
    with Some True show ?thesis
      by (simp add: loop_body_def tier_step_not_candidate)
  next
    case False
    note k = keep_max_tier_step [OF Some False]
    show ?thesis
      by (simp add: loop_body_def Some False k [OF assms(1)] k [OF assms(2)] k [OF assms(3)])
  qed
qed

lemma loop_body_dash: "includes_dash v \<Longrightarrow> loop_body c v st = Inr st"
  by (simp add: loop_body_def split: option.splits)

lemma scan_snoc:
  "scan c (vs @ [v]) st =
     (case scan c vs st of Inl e \<Rightarrow> Inl e | Inr st' \<Rightarrow> loop_body c v st')"
  by (induction vs arbitrary: st) (auto split: sum.splits)

lemma scan_filter:
  "scan c (filter (\<lambda>v. \<not> includes_dash v) vs) st = scan c vs st"
  by (induction vs arbitrary: st) (auto simp: loop_body_dash split: sum.splits)

lemma first_max_valid: "first_max tier vs m \<Longrightarrow> valid_max m"
  by (auto simp: first_max_def valid_max_def split: option.splits dest: candidate_parses)

lemma first_max_Nil [simp]: "first_max tier [] None"
  by (simp add: first_max_def)

lemma first_max_step:
  assumes "first_max tier vs m"
  shows "first_max tier (vs @ [v]) (tier_step tier v m)"
proof (cases m)
  case None
  with assms have no: "\<forall>u \<in> set vs. \<not> candidate_of tier u"
    by (simp add: first_max_def list_ex_iff)
  show ?thesis
  proof (cases "candidate_of tier v")
    case True
    with None have "tier_step tier v m = Some v" by (simp add: tier_step_def)
    moreover have "first_max tier (vs @ [v]) (Some v)"
      unfolding first_max_def option.case
      by (rule exI [of _ vs], rule exI [of _ "[]"]) (use True no in simp)
    ultimately show ?thesis by simp
  next
    case False
    with None no show ?thesis
      by (simp add: tier_step_def first_max_def list_ex_iff)
  qed
next
  case (Some b)
  with assms obtain ys zs where
    vs: "vs = ys @ b # zs" and cb: "candidate_of tier b" and
    before: "\<forall>u \<in> set ys. candidate_of tier u \<longrightarrow> cmp_less u b" and
    after: "\<forall>u \<in> set zs. candidate_of tier u \<longrightarrow> \<not> cmp_greater u b"
    by (auto simp: first_max_def)
  from candidate_parses [OF cb] obtain tb where tb: "parseSemverTuple b = Some tb" ..
  show ?thesis
  proof (cases "candidate_of tier v \<and> cmp_greater v b")
    case True
    then have cv: "candidate_of tier v" and gt: "cmp_greater v b" by auto
    from candidate_parses [OF cv] obtain tv where tv: "parseSemverTuple v = Some tv" ..
    from gt have bv: "lex_less tb tv" by (simp add: cmp_less_iff [OF tv tb])
    have all_less: "cmp_less u v" if u: "u \<in> set vs" and cu: "candidate_of tier u" for u
    proof -
      from candidate_parses [OF cu] obtain tu where tu: "parseSemverTuple u = Some tu" ..
      have "lex_less tu tv"
      proof -
        consider "u \<in> set ys" | "u = b" | "u \<in> set zs" using u vs by auto
        then show ?thesis
        proof cases
          case 1
          with before cu have "lex_less tu tb" by (auto simp: cmp_less_iff [OF tu tb])
          then show ?thesis using bv by (rule lex_less_trans)
        next
          case 2
          with tu tb bv show ?thesis by simp
        next
          case 3
          with after cu have "\<not> lex_less tb tu" by (auto simp: cmp_less_iff [OF tu tb])
          then show ?thesis using bv by (rule lex_less_le_trans)
        qed
      qed
      then show ?thesis by (simp add: cmp_less_iff [OF tu tv])
    qed
    have "first_max tier (vs @ [v]) (Some v)"
      unfolding first_max_def option.case
      by (rule exI [of _ vs], rule exI [of _ "[]"]) (use cv all_less in simp)
    moreover from True Some have "tier_step tier v m = Some v" by (simp add: tier_step_def)
    ultimately show ?thesis by simp
  next
    case False
    with Some have "tier_step tier v m = Some b" by (auto simp: tier_step_def)
    moreover have "first_max tier (vs @ [v]) (Some b)"
      unfolding first_max_def option.case
      by (rule exI [of _ ys], rule exI [of _ "zs @ [v]"]) (use vs cb before after False in auto)
    ultimately show ?thesis by simp
  qed
qed

lemma first_max_member:
  assumes "first_max tier vs (Some b)"
  shows "b \<in> set vs \<and> candidate_of tier b"
  using assms by (auto simp: first_max_def)

lemma first_max_only:
  assumes "first_max tier vs m" "x \<in> set vs" "candidate_of tier x"
    and "\<And>v. v \<in> set vs \<Longrightarrow> candidate_of tier v \<Longrightarrow> v = x"
  shows "m = Some x"
proof (cases m)
  case None
  with assms(1-3) show ?thesis by (auto simp: first_max_def list_ex_iff)
next
  case (Some b)
  with assms(1) first_max_member [of tier vs b] have "b \<in> set vs" "candidate_of tier b"
    by auto
  with assms(4) Some show ?thesis by auto
qed

lemma scan_first_max:
  "\<exists>st. scan c vs no_maxima = Inr st \<and>
     first_max (patch_tier c) vs (maxPatch st) \<and>
     first_max (minor_tier c) vs (maxMinor st) \<and>
     first_max (major_tier c) vs (maxMajor st)"
proof (induction vs rule: rev_induct)
  case Nil
  show ?case by (simp add: no_maxima_def)
next
  case (snoc v vs)
  then obtain st where st: "scan c vs no_maxima = Inr st" and
    p: "first_max (patch_tier c) vs (maxPatch st)" and
    mi: "first_max (minor_tier c) vs (maxMinor st)" and
    ma: "first_max (major_tier c) vs (maxMajor st)"
    by blast
  note body = loop_body_step [OF first_max_valid [OF p] first_max_valid [OF mi]
      first_max_valid [OF ma], of c v]
  show ?case
    by (simp add: scan_snoc st body first_max_step [OF p] first_max_step [OF mi]
        first_max_step [OF ma])
qed

lemma tier_field_Some:
  assumes "tier_field current latestTag m = Some v"
  shows "m = Some v \<and> v \<noteq> latestTag \<and> latestTag \<noteq> current"
  using assms by (auto simp: tier_field_def split: if_splits)

lemma getUpgradeOptions_parsed:
  assumes "parseSemverTuple current = Some c"
  shows "\<exists>st. scan c allVersions no_maxima = Inr st \<and>
           first_max (patch_tier c) allVersions (maxPatch st) \<and>
           first_max (minor_tier c) allVersions (maxMinor st) \<and>
           first_max (major_tier c) allVersions (maxMajor st) \<and>
           getUpgradeOptions current allVersions latestTag =
             Inr \<lparr>major = tier_field current latestTag (maxMajor st),
                  minor = tier_field current latestTag (maxMinor st),
                  patch = tier_field current latestTag (maxPatch st),
                  prerelease =
                    (if includes_dash latestTag \<and> \<not> includes_dash current
                     then Some latestTag else None),
                  latest = latestTag\<rparr>"
proof -
  from scan_first_max [of c allVersions] obtain st where
    "scan c allVersions no_maxima = Inr st"
    "first_max (patch_tier c) allVersions (maxPatch st)"
    "first_max (minor_tier c) allVersions (maxMinor st)"
    "first_max (major_tier c) allVersions (maxMajor st)"
    by blast
  with assms show ?thesis
    by (simp add: getUpgradeOptions_def)
qed

lemma tier_upgradeI:
  fixes tierE :: "SemverTuple \<Rightarrow> SemverTuple \<Rightarrow> bool"
    and tierN :: "nat \<times> nat \<times> nat \<Rightarrow> nat \<times> nat \<times> nat \<Rightarrow> bool"
  assumes rel: "\<And>a b c x y z.
      tierE (enat a, enat b, enat c) (enat x, enat y, enat z) \<longleftrightarrow> tierN (a, b, c) (x, y, z)"
    and lex: "\<And>s t. tierN s t \<Longrightarrow> lex_less s t"
    and cur: "parseSemverTuple current = Some c"
    and sc: "small_version current" and sv: "small_version v"
    and cand: "candidate_of (tierE c) v"
  shows "tier_upgrade tierN current v"
proof -
  from cur have "version_tuple current \<noteq> None" by (simp add: version_tuple_None_iff)
  then obtain a b c' where vc: "version_tuple current = Some (a, b, c')" by auto
  with sc have "below_2_53 (a, b, c')" by (simp add: small_version_def)
  from parseSemverTuple_small [OF vc this] cur have c: "c = (enat a, enat b, enat c')" by simp
  from candidate_parses [OF cand] obtain tv where tv: "parseSemverTuple v = Some tv" ..
  then have "version_tuple v \<noteq> None" by (simp add: version_tuple_None_iff)
  then obtain x y z where vv: "version_tuple v = Some (x, y, z)" by auto
  with sv have "below_2_53 (x, y, z)" by (simp add: small_version_def)
  from parseSemverTuple_small [OF vv this] tv have t: "tv = (enat x, enat y, enat z)" by simp
  from cand tv have "tierE c tv" and dash: "\<not> includes_dash v"
    by (simp_all add: candidate_of_def)
  then have "tierN (a, b, c') (x, y, z)" by (simp add: c t rel)
  with lex [OF this] dash vc vv show ?thesis by (simp add: tier_upgrade_def)
qed

lemma tier_enat:
  "patch_tier (enat a, enat b, enat c) (enat x, enat y, enat z) \<longleftrightarrow>
     patch_tier (a, b, c) (x, y, z)"
  "minor_tier (enat a, enat b, enat c) (enat x, enat y, enat z) \<longleftrightarrow>
     minor_tier (a, b, c) (x, y, z)"
  "major_tier (enat a, enat b, enat c) (enat x, enat y, enat z) \<longleftrightarrow>
     major_tier (a, b, c) (x, y, z)"
  by (simp_all add: patch_tier_def minor_tier_def major_tier_def)

lemma small_parse:
  assumes "parseSemverTuple v = Some t" "small_version v"
  shows "\<exists>a b c. version_tuple v = Some (a, b, c) \<and> t = (enat a, enat b, enat c)"
proof -
  from assms(1) have "version_tuple v \<noteq> None" by (simp add: version_tuple_None_iff)
  then obtain a b c where v: "version_tuple v = Some (a, b, c)" by auto
  with assms(2) have "below_2_53 (a, b, c)" by (simp add: small_version_def)
  from parseSemverTuple_small [OF v this] assms(1) v show ?thesis by simp
qed

lemma tier_upgrade_iff:
  fixes tierE :: "SemverTuple \<Rightarrow> SemverTuple \<Rightarrow> bool"
    and tierN :: "nat \<times> nat \<times> nat \<Rightarrow> nat \<times> nat \<times> nat \<Rightarrow> bool"
  assumes rel: "\<And>a b c x y z.
      tierE (enat a, enat b, enat c) (enat x, enat y, enat z) \<longleftrightarrow> tierN (a, b, c) (x, y, z)"
    and lex: "\<And>s t. tierN s t \<Longrightarrow> lex_less s t"
    and cur: "parseSemverTuple current = Some c"
    and sc: "small_version current" and sv: "small_version v"
  shows "candidate_of (tierE c) v \<longleftrightarrow> tier_upgrade tierN current v"
proof
  assume "candidate_of (tierE c) v"
  from tier_upgradeI [of tierE tierN, OF rel lex cur sc sv this]
  show "tier_upgrade tierN current v" .
next
  assume u: "tier_upgrade tierN current v"
  from small_parse [OF cur sc] obtain a b c' where
    vc: "version_tuple current = Some (a, b, c')" and c: "c = (enat a, enat b, enat c')"
    by blast
  from u vc obtain t where vv: "version_tuple v = Some t" and dash: "\<not> includes_dash v"
    and tier: "tierN (a, b, c') t"
    by (auto simp: tier_upgrade_def split: option.splits)
  obtain x y z where t: "t = (x, y, z)" by (cases t)
  from sv vv t have "below_2_53 (x, y, z)" by (simp add: small_version_def)
  from parseSemverTuple_small [OF vv [unfolded t] this]
  have "parseSemverTuple v = Some (enat x, enat y, enat z)" .
  with dash tier show "candidate_of (tierE c) v"
    by (simp add: candidate_of_def c t rel)
qed

lemma lex_less_enat:
  "lex_less (enat a, enat b, enat c) (enat x, enat y, enat z) \<longleftrightarrow> lex_less (a, b, c) (x, y, z)"
  by (simp add: lex_less_def)

lemma cmp_small:
  assumes "parseSemverTuple u = Some tu" "parseSemverTuple v = Some tv"
    and "small_version u" "small_version v"
  shows "cmp_less u v \<longleftrightarrow> tuple_less u v" "cmp_greater u v \<longleftrightarrow> tuple_less v u"
proof -
  from small_parse [OF assms(1) assms(3)] obtain a b c where
    u: "version_tuple u = Some (a, b, c)" "tu = (enat a, enat b, enat c)" by blast
  from small_parse [OF assms(2) assms(4)] obtain x y z where
    v: "version_tuple v = Some (x, y, z)" "tv = (enat x, enat y, enat z)" by blast
  from cmp_less_iff [OF assms(1) assms(2)] u v
  show "cmp_less u v \<longleftrightarrow> tuple_less u v" "cmp_greater u v \<longleftrightarrow> tuple_less v u"
    by (simp_all add: tuple_less_def lex_less_enat)
qed

lemma first_max_greatest:
  fixes tierE :: "SemverTuple \<Rightarrow> SemverTuple \<Rightarrow> bool"
    and tierN :: "nat \<times> nat \<times> nat \<Rightarrow> nat \<times> nat \<times> nat \<Rightarrow> bool"
  assumes rel: "\<And>a b c x y z.
      tierE (enat a, enat b, enat c) (enat x, enat y, enat z) \<longleftrightarrow> tierN (a, b, c) (x, y, z)"
    and lex: "\<And>s t. tierN s t \<Longrightarrow> lex_less s t"
    and cur: "parseSemverTuple current = Some c"
    and sc: "small_version current" and sv: "\<forall>v \<in> set vs. small_version v"
    and fm: "first_max (tierE c) vs m"
  shows "first_greatest tierN current vs m"
proof -
  have eq: "candidate_of (tierE c) v \<longleftrightarrow> tier_upgrade tierN current v" if "v \<in> set vs" for v
  proof -
    from that sv have "small_version v" by blast
    from tier_upgrade_iff [of tierE tierN, OF rel lex cur sc this] show ?thesis .
  qed
  show ?thesis
  proof (cases m)
    case None
    with fm have "\<not> list_ex (candidate_of (tierE c)) vs" by (simp add: first_max_def)
    then have "\<not> list_ex (tier_upgrade tierN current) vs"
      using eq by (simp add: list_ex_iff)
    with None show ?thesis by (simp add: first_greatest_def)
  next
    case (Some b)
    with fm obtain ys zs where vs: "vs = ys @ b # zs" and cb: "candidate_of (tierE c) b"
      and before: "\<forall>u \<in> set ys. candidate_of (tierE c) u \<longrightarrow> cmp_less u b"
      and after: "\<forall>u \<in> set zs. candidate_of (tierE c) u \<longrightarrow> \<not> cmp_greater u b"
      by (auto simp: first_max_def)
    from vs have bin: "b \<in> set vs" by simp
    from candidate_parses [OF cb] obtain tb where pb: "parseSemverTuple b = Some tb" ..
    from bin sv have sb: "small_version b" by blast
    have ub: "tier_upgrade tierN current b" using eq [OF bin] cb by simp
    have 1: "tuple_less u b" if "u \<in> set ys" "tier_upgrade tierN current u" for u
    proof -
      from that(1) vs have uin: "u \<in> set vs" by simp
      with that(2) eq have cu: "candidate_of (tierE c) u" by simp
      from candidate_parses [OF cu] obtain tu where pu: "parseSemverTuple u = Some tu" ..
      from uin sv have su: "small_version u" by blast
      from before that(1) cu have "cmp_less u b" by blast
      with cmp_small(1) [OF pu pb su sb] show ?thesis by simp
    qed
    have 2: "\<not> tuple_less b u" if "u \<in> set zs" "tier_upgrade tierN current u" for u
    proof -
      from that(1) vs have uin: "u \<in> set vs" by simp
      with that(2) eq have cu: "candidate_of (tierE c) u" by simp
      from candidate_parses [OF cu] obtain tu where pu: "parseSemverTuple u = Some tu" ..
      from uin sv have su: "small_version u" by blast
      from after that(1) cu have "\<not> cmp_greater u b" by blast
      with cmp_small(2) [OF pu pb su sb] show ?thesis by simp
    qed
    have "\<exists>ys zs. vs = ys @ b # zs \<and> tier_upgrade tierN current b \<and>
            (\<forall>u \<in> set ys. tier_upgrade tierN current u \<longrightarrow> tuple_less u b) \<and>
            (\<forall>u \<in> set zs. tier_upgrade tierN current u \<longrightarrow> \<not> tuple_less b u)"
      by (rule exI [of _ ys], rule exI [of _ zs]) (use vs ub 1 2 in blast)
    with Some show ?thesis by (simp add: first_greatest_def)
  qed
qed

lemmas classifier_evaluation =
  getUpgradeOptions_def loop_body_def keep_max_def truthy_def patch_tier_def minor_tier_def
  major_tier_def tier_field_def no_maxima_def evaluation

section \<open>The upgrade options\<close>

text \<open>
  Claim C1, as amended. For every current version, candidate list and latest tag in
  which every tuple has its components below \<open>2^53\<close>, \<open>getUpgradeOptions\<close> returns
  options whose \<open>latest\<close> field is the latest tag; a populated \<open>patch\<close>, \<open>minor\<close> or
  \<open>major\<close> field names a candidate of the list without prerelease marker whose tuple
  lies in that tier of the tuple of the current version and is strictly greater than it,
  and differs from the \<open>latest\<close> field; a populated \<open>prerelease\<close> field is the \<open>latest\<close>
  field itself (a tag with a prerelease marker, offered when the current version has
  none).
\<close>

theorem upgrade_options_invariant:
  assumes "small_version current" "\<forall>v \<in> set allVersions. small_version v"
  shows "\<exists>r. getUpgradeOptions current allVersions latestTag = Inr r \<and> latest r = latestTag \<and>
     (\<forall>v. patch r = Some v \<longrightarrow>
        v \<in> set allVersions \<and> v \<noteq> latest r \<and> tier_upgrade patch_tier current v) \<and>
     (\<forall>v. minor r = Some v \<longrightarrow>
        v \<in> set allVersions \<and> v \<noteq> latest r \<and> tier_upgrade minor_tier current v) \<and>
     (\<forall>v. major r = Some v \<longrightarrow>
        v \<in> set allVersions \<and> v \<noteq> latest r \<and> tier_upgrade major_tier current v) \<and>
     (\<forall>v. prerelease r = Some v \<longrightarrow>
        v = latest r \<and> includes_dash v \<and> \<not> includes_dash current)"
proof (cases "parseSemverTuple current")
  case None
  then show ?thesis by (simp add: getUpgradeOptions_def)
next
  case (Some c)
  from getUpgradeOptions_parsed [OF Some, of allVersions latestTag] obtain st where
    "scan c allVersions no_maxima = Inr st" and
    p: "first_max (patch_tier c) allVersions (maxPatch st)" and
    mi: "first_max (minor_tier c) allVersions (maxMinor st)" and
    ma: "first_max (major_tier c) allVersions (maxMajor st)" and
    r: "getUpgradeOptions current allVersions latestTag =
             Inr \<lparr>major = tier_field current latestTag (maxMajor st),
                  minor = tier_field current latestTag (maxMinor st),
                  patch = tier_field current latestTag (maxPatch st),
                  prerelease =
                    (if includes_dash latestTag \<and> \<not> includes_dash current
                     then Some latestTag else None),
                  latest = latestTag\<rparr>"
    by blast
  have member: "v \<in> set allVersions \<and> v \<noteq> latestTag \<and> candidate_of tier v"
    if "first_max tier allVersions m" "tier_field current latestTag m = Some v" for tier m v
  proof -
    from tier_field_Some [OF that(2)] have m: "m = Some v" and ne: "v \<noteq> latestTag" by auto
    from first_max_member [OF that(1) [unfolded m]] ne show ?thesis by simp
  qed
  have fp: "v \<in> set allVersions \<and> v \<noteq> latestTag \<and> tier_upgrade patch_tier current v"
    if f: "tier_field current latestTag (maxPatch st) = Some v" for v
  proof -
    from member [OF p f] have v: "v \<in> set allVersions" "v \<noteq> latestTag"
      and c: "candidate_of (patch_tier c) v" by auto
    from v(1) assms(2) have "small_version v" by blast
    from tier_upgradeI [of patch_tier patch_tier, OF tier_enat(1) tier_lex_less(1) Some
        assms(1) this c] v
    show ?thesis by simp
  qed
  have fmi: "v \<in> set allVersions \<and> v \<noteq> latestTag \<and> tier_upgrade minor_tier current v"
    if f: "tier_field current latestTag (maxMinor st) = Some v" for v
  proof -
    from member [OF mi f] have v: "v \<in> set allVersions" "v \<noteq> latestTag"
      and c: "candidate_of (minor_tier c) v" by auto
    from v(1) assms(2) have "small_version v" by blast
    from tier_upgradeI [of minor_tier minor_tier, OF tier_enat(2) tier_lex_less(2) Some
        assms(1) this c] v
    show ?thesis by simp
  qed
  have fma: "v \<in> set allVersions \<and> v \<noteq> latestTag \<and> tier_upgrade major_tier current v"
    if f: "tier_field current latestTag (maxMajor st) = Some v" for v
  proof -
    from member [OF ma f] have v: "v \<in> set allVersions" "v \<noteq> latestTag"
      and c: "candidate_of (major_tier c) v" by auto
    from v(1) assms(2) have "small_version v" by blast
    from tier_upgradeI [of major_tier major_tier, OF tier_enat(3) tier_lex_less(3) Some
        assms(1) this c] v
    show ?thesis by simp
  qed
  show ?thesis
    unfolding r
    by (rule exI, rule conjI, rule refl) (auto dest: fp fmi fma split: if_splits)
qed

theorem upgrade_options_invariant_witness:
  "small_version ''1.2.3'' \<and>
   list_all small_version [''1.2.4'', ''1.3.0'', ''2.0.0'', ''3.0.0-rc.1''] \<and>
   getUpgradeOptions ''1.2.3'' [''1.2.4'', ''1.3.0'', ''2.0.0'', ''3.0.0-rc.1''] ''3.0.0-rc.1'' =
     Inr \<lparr>major = Some ''2.0.0'', minor = Some ''1.3.0'', patch = Some ''1.2.4'',
          prerelease = Some ''3.0.0-rc.1'', latest = ''3.0.0-rc.1''\<rparr> \<and>
   tier_upgrade patch_tier ''1.2.3'' ''1.2.4'' \<and>
   tier_upgrade minor_tier ''1.2.3'' ''1.3.0'' \<and>
   tier_upgrade major_tier ''1.2.3'' ''2.0.0'' \<and>
   includes_dash ''3.0.0-rc.1'' \<and> \<not> includes_dash ''1.2.3''"
proof -
  have s: "small_version ''1.2.3''" "small_version ''1.2.4''" "small_version ''1.3.0''"
    "small_version ''2.0.0''" "small_version ''3.0.0-rc.1''"
    by (simp_all add: small_version_def below_2_53_def tuple_evaluation)
  have e: "getUpgradeOptions ''1.2.3'' [''1.2.4'', ''1.3.0'', ''2.0.0'', ''3.0.0-rc.1''] ''3.0.0-rc.1'' =
     Inr \<lparr>major = Some ''2.0.0'', minor = Some ''1.3.0'', patch = Some ''1.2.4'',
          prerelease = Some ''3.0.0-rc.1'', latest = ''3.0.0-rc.1''\<rparr>"
    by (simp add: classifier_evaluation)
  from upgrade_options_invariant
    [of "''1.2.3''" "[''1.2.4'', ''1.3.0'', ''2.0.0'', ''3.0.0-rc.1'']" "''3.0.0-rc.1''"] s
  show ?thesis
    unfolding e by simp
qed

text \<open>The \<open>prerelease\<close> field is not distinct from \<open>latest\<close>, and it need not be greater
  than the current version: from \<open>1.0.0\<close> with latest tag \<open>2.0.0-beta.1\<close> both fields
  hold the tag, and from \<open>3.0.0\<close> with latest tag \<open>1.0.0-rc.1\<close> the field names a
  version below the current one. From \<open>2^53\<close> on a tier field need not be greater either:
  for the current version \<open>9007199254740993.0.0\<close> the \<open>patch\<close> field names
  \<open>9007199254740992.0.1\<close>.\<close>

theorem upgrade_options_invariant_counterexample:
  "getUpgradeOptions ''1.0.0'' [''2.0.0-beta.1''] ''2.0.0-beta.1'' =
     Inr \<lparr>major = None, minor = None, patch = None,
          prerelease = Some ''2.0.0-beta.1'', latest = ''2.0.0-beta.1''\<rparr> \<and>
   getUpgradeOptions ''3.0.0'' [] ''1.0.0-rc.1'' =
     Inr \<lparr>major = None, minor = None, patch = None,
          prerelease = Some ''1.0.0-rc.1'', latest = ''1.0.0-rc.1''\<rparr> \<and>
   compare ''1.0.0-rc.1'' ''3.0.0'' = Inr (Finite (- 2)) \<and>
   getUpgradeOptions ''9007199254740993.0.0'' [''9007199254740992.0.1''] ''9.9.9'' =
     Inr \<lparr>major = None, minor = None, patch = Some ''9007199254740992.0.1'',
          prerelease = None, latest = ''9.9.9''\<rparr> \<and>
   version_tuple ''9007199254740993.0.0'' = Some (9007199254740993, 0, 0) \<and>
   version_tuple ''9007199254740992.0.1'' = Some (9007199254740992, 0, 1)"
proof -
  have 1: "getUpgradeOptions ''1.0.0'' [''2.0.0-beta.1''] ''2.0.0-beta.1'' =
     Inr \<lparr>major = None, minor = None, patch = None,
          prerelease = Some ''2.0.0-beta.1'', latest = ''2.0.0-beta.1''\<rparr>"
    by (simp add: classifier_evaluation)
  have 2: "getUpgradeOptions ''3.0.0'' [] ''1.0.0-rc.1'' =
     Inr \<lparr>major = None, minor = None, patch = None,
          prerelease = Some ''1.0.0-rc.1'', latest = ''1.0.0-rc.1''\<rparr>"
    by (simp add: classifier_evaluation)
  have 3: "compare ''1.0.0-rc.1'' ''3.0.0'' = Inr (Finite (- 2))"
    by (simp add: evaluation)
  have 4: "getUpgradeOptions ''9007199254740993.0.0'' [''9007199254740992.0.1''] ''9.9.9'' =
     Inr \<lparr>major = None, minor = None, patch = Some ''9007199254740992.0.1'',
          prerelease = None, latest = ''9.9.9''\<rparr>"
    by (simp add: classifier_evaluation)
  have 5: "version_tuple ''9007199254740993.0.0'' = Some (9007199254740993, 0, 0)"
    "version_tuple ''9007199254740992.0.1'' = Some (9007199254740992, 0, 1)"
    by (simp_all add: tuple_evaluation)
  from 1 2 3 4 5 show ?thesis by simp
qed

text \<open>
  Claim C2. With current version \<open>1.2.3\<close>, the candidates \<open>1.2.4\<close>, \<open>1.3.0\<close> and
  \<open>2.0.0\<close> (in any order) and latest tag \<open>2.0.0\<close>, the loop finds \<open>1.2.4\<close>, \<open>1.3.0\<close>
  and \<open>2.0.0\<close> for the three tiers, and \<open>getUpgradeOptions\<close> returns exactly
  \<^verbatim>\<open>{ latest: "2.0.0", patch: "1.2.4", minor: "1.3.0" }\<close>: the major tier is left out
  because its best candidate is the latest tag.
\<close>

theorem classify_example:
  assumes "set allVersions = {''1.2.4'', ''1.3.0'', ''2.0.0''}"
  shows "scan (1, 2, 3) allVersions no_maxima =
           Inr \<lparr>maxPatch = Some ''1.2.4'', maxMinor = Some ''1.3.0'', maxMajor = Some ''2.0.0''\<rparr> \<and>
         getUpgradeOptions ''1.2.3'' allVersions ''2.0.0'' =
           Inr \<lparr>major = None, minor = Some ''1.3.0'', patch = Some ''1.2.4'',
                prerelease = None, latest = ''2.0.0''\<rparr>"
proof -
  have n: "(1, 2, 3) = (enat 1, enat 2, enat 3)"
    by (simp add: one_enat_def numeral_eq_enat)
  have cur: "parseSemverTuple ''1.2.3'' = Some (1, 2, 3)"
    unfolding n by (simp add: evaluation)
  have c: "candidate_of (patch_tier (1, 2, 3)) ''1.2.4''"
    "\<not> candidate_of (patch_tier (1, 2, 3)) ''1.3.0''"
    "\<not> candidate_of (patch_tier (1, 2, 3)) ''2.0.0''"
    "\<not> candidate_of (minor_tier (1, 2, 3)) ''1.2.4''"
    "candidate_of (minor_tier (1, 2, 3)) ''1.3.0''"
    "\<not> candidate_of (minor_tier (1, 2, 3)) ''2.0.0''"
    "\<not> candidate_of (major_tier (1, 2, 3)) ''1.2.4''"
    "\<not> candidate_of (major_tier (1, 2, 3)) ''1.3.0''"
    "candidate_of (major_tier (1, 2, 3)) ''2.0.0''"
    unfolding n
    by (simp_all add: candidate_of_def patch_tier_def minor_tier_def major_tier_def evaluation)
  from getUpgradeOptions_parsed [OF cur, of allVersions "''2.0.0''"] obtain st where
    s: "scan (1, 2, 3) allVersions no_maxima = Inr st" and
    p: "first_max (patch_tier (1, 2, 3)) allVersions (maxPatch st)" and
    mi: "first_max (minor_tier (1, 2, 3)) allVersions (maxMinor st)" and
    ma: "first_max (major_tier (1, 2, 3)) allVersions (maxMajor st)" and
    r: "getUpgradeOptions ''1.2.3'' allVersions ''2.0.0'' =
             Inr \<lparr>major = tier_field ''1.2.3'' ''2.0.0'' (maxMajor st),
                  minor = tier_field ''1.2.3'' ''2.0.0'' (maxMinor st),
                  patch = tier_field ''1.2.3'' ''2.0.0'' (maxPatch st),
                  prerelease =
                    (if includes_dash ''2.0.0'' \<and> \<not> includes_dash ''1.2.3''
                     then Some ''2.0.0'' else None),
                  latest = ''2.0.0''\<rparr>"
    by blast
  have 1: "maxPatch st = Some ''1.2.4''"
    by (rule first_max_only [OF p]) (use assms c in auto)
  have 2: "maxMinor st = Some ''1.3.0''"
    by (rule first_max_only [OF mi]) (use assms c in auto)
  have 3: "maxMajor st = Some ''2.0.0''"
    by (rule first_max_only [OF ma]) (use assms c in auto)
  have st: "st = \<lparr>maxPatch = Some ''1.2.4'', maxMinor = Some ''1.3.0'', maxMajor = Some ''2.0.0''\<rparr>"
    using 1 2 3 by (cases st) simp
  have d: "\<not> includes_dash ''2.0.0''" by (simp add: includes_dash_def)
  show ?thesis
    unfolding r s 1 2 3 using st d by (simp add: tier_field_def truthy_def)
qed

theorem classify_example_witness:
  "set [''1.2.4'', ''1.3.0'', ''2.0.0''] = {''1.2.4'', ''1.3.0'', ''2.0.0''} \<and>
   getUpgradeOptions ''1.2.3'' [''1.2.4'', ''1.3.0'', ''2.0.0''] ''2.0.0'' =
     Inr \<lparr>major = None, minor = Some ''1.3.0'', patch = Some ''1.2.4'',
          prerelease = None, latest = ''2.0.0''\<rparr> \<and>
   getUpgradeOptions ''1.2.3'' [''2.0.0'', ''1.3.0'', ''1.2.4'', ''1.3.0''] ''2.0.0'' =
     Inr \<lparr>major = None, minor = Some ''1.3.0'', patch = Some ''1.2.4'',
          prerelease = None, latest = ''2.0.0''\<rparr>"
proof -
  have 1: "set [''1.2.4'', ''1.3.0'', ''2.0.0''] = {''1.2.4'', ''1.3.0'', ''2.0.0''}"
    by simp
  have 2: "set [''2.0.0'', ''1.3.0'', ''1.2.4'', ''1.3.0''] = {''1.2.4'', ''1.3.0'', ''2.0.0''}"
    by auto
  from classify_example [OF 1] classify_example [OF 2] 1 show ?thesis
    by blast
qed

text \<open>
  Claim C3, as amended. For every current version and candidate list in which every
  tuple has its components below \<open>2^53\<close>, the loop of \<open>getUpgradeOptions\<close> ignores every
  candidate with a prerelease marker (it computes the same maxima on the list without
  them), and for each tier it keeps a greatest remaining candidate of the tier, under the
  comparator and in the lexicographic order of the tuples; among candidates that the
  comparator holds equal the first in the list is kept. Each of the fields \<open>patch\<close>,
  \<open>minor\<close>, \<open>major\<close> is the tier's maximum, or absent where the latest tag suppresses it.
\<close>

theorem tier_maximum_first_wins:
  assumes "parseSemverTuple current = Some c"
    and "small_version current" "\<forall>v \<in> set allVersions. small_version v"
  shows "\<exists>st r.
     scan c allVersions no_maxima = Inr st \<and>
     scan c (filter (\<lambda>v. \<not> includes_dash v) allVersions) no_maxima = Inr st \<and>
     first_max (patch_tier c) allVersions (maxPatch st) \<and>
     first_max (minor_tier c) allVersions (maxMinor st) \<and>
     first_max (major_tier c) allVersions (maxMajor st) \<and>
     first_greatest patch_tier current allVersions (maxPatch st) \<and>
     first_greatest minor_tier current allVersions (maxMinor st) \<and>
     first_greatest major_tier current allVersions (maxMajor st) \<and>
     getUpgradeOptions current allVersions latestTag = Inr r \<and>
     patch r = tier_field current latestTag (maxPatch st) \<and>
     minor r = tier_field current latestTag (maxMinor st) \<and>
     major r = tier_field current latestTag (maxMajor st)"
proof -
  from getUpgradeOptions_parsed [OF assms(1), of allVersions latestTag] obtain st where
    s: "scan c allVersions no_maxima = Inr st" and
    p: "first_max (patch_tier c) allVersions (maxPatch st)" and
    mi: "first_max (minor_tier c) allVersions (maxMinor st)" and
    ma: "first_max (major_tier c) allVersions (maxMajor st)" and
    r: "getUpgradeOptions current allVersions latestTag =
             Inr \<lparr>major = tier_field current latestTag (maxMajor st),
                  minor = tier_field current latestTag (maxMinor st),
                  patch = tier_field current latestTag (maxPatch st),
                  prerelease =
                    (if includes_dash latestTag \<and> \<not> includes_dash current
                     then Some latestTag else None),
                  latest = latestTag\<rparr>"
    by blast
  from first_max_greatest [of patch_tier patch_tier, OF tier_enat(1) tier_lex_less(1)
      assms(1) assms(2) assms(3) p]
  have gp: "first_greatest patch_tier current allVersions (maxPatch st)" .
  from first_max_greatest [of minor_tier minor_tier, OF tier_enat(2) tier_lex_less(2)
      assms(1) assms(2) assms(3) mi]
  have gmi: "first_greatest minor_tier current allVersions (maxMinor st)" .
  from first_max_greatest [of major_tier major_tier, OF tier_enat(3) tier_lex_less(3)
      assms(1) assms(2) assms(3) ma]
  have gma: "first_greatest major_tier current allVersions (maxMajor st)" .
  from s have f: "scan c (filter (\<lambda>v. \<not> includes_dash v) allVersions) no_maxima = Inr st"
    by (simp add: scan_filter)
  show ?thesis
    unfolding r using s f p mi ma gp gmi gma by simp
qed

theorem tier_maximum_first_wins_witness:
  "parseSemverTuple ''1.2.3'' = Some (enat 1, enat 2, enat 3) \<and>
   small_version ''1.2.3'' \<and>
   list_all small_version [''1.2.4'', ''1.2.4+build'', ''1.2.5-rc.1'', ''1.3.0''] \<and>
   first_max (patch_tier (enat 1, enat 2, enat 3))
     [''1.2.4'', ''1.2.4+build'', ''1.2.5-rc.1'', ''1.3.0''] (Some ''1.2.4'') \<and>
   first_max (minor_tier (enat 1, enat 2, enat 3))
     [''1.2.4'', ''1.2.4+build'', ''1.2.5-rc.1'', ''1.3.0''] (Some ''1.3.0'') \<and>
   first_max (major_tier (enat 1, enat 2, enat 3))
     [''1.2.4'', ''1.2.4+build'', ''1.2.5-rc.1'', ''1.3.0''] None \<and>
   first_greatest patch_tier ''1.2.3''
     [''1.2.4'', ''1.2.4+build'', ''1.2.5-rc.1'', ''1.3.0''] (Some ''1.2.4'') \<and>
   first_greatest minor_tier ''1.2.3''
     [''1.2.4'', ''1.2.4+build'', ''1.2.5-rc.1'', ''1.3.0''] (Some ''1.3.0'') \<and>
   first_greatest major_tier ''1.2.3''
     [''1.2.4'', ''1.2.4+build'', ''1.2.5-rc.1'', ''1.3.0''] None \<and>
   getUpgradeOptions ''1.2.3'' [''1.2.4'', ''1.2.4+build'', ''1.2.5-rc.1'', ''1.3.0''] ''1.3.0'' =
     Inr \<lparr>major = None, minor = None, patch = Some ''1.2.4'',
          prerelease = None, latest = ''1.3.0''\<rparr>"
proof -
  have p: "parseSemverTuple ''1.2.3'' = Some (enat 1, enat 2, enat 3)"
    by (simp add: evaluation)
  have sm: "small_version ''1.2.3''" "small_version ''1.2.4''" "small_version ''1.2.4+build''"
    "small_version ''1.2.5-rc.1''" "small_version ''1.3.0''"
    by (simp_all add: small_version_def below_2_53_def tuple_evaluation)
  have s: "scan (enat 1, enat 2, enat 3)
       [''1.2.4'', ''1.2.4+build'', ''1.2.5-rc.1'', ''1.3.0''] no_maxima =
     Inr \<lparr>maxPatch = Some ''1.2.4'', maxMinor = Some ''1.3.0'', maxMajor = None\<rparr>"
    by (simp add: classifier_evaluation)
  have g: "getUpgradeOptions ''1.2.3'' [''1.2.4'', ''1.2.4+build'', ''1.2.5-rc.1'', ''1.3.0''] ''1.3.0'' =
     Inr \<lparr>major = None, minor = None, patch = Some ''1.2.4'',
          prerelease = None, latest = ''1.3.0''\<rparr>"
    by (simp add: classifier_evaluation)
  from tier_maximum_first_wins
    [OF p, of "[''1.2.4'', ''1.2.4+build'', ''1.2.5-rc.1'', ''1.3.0'']" "''1.3.0''"] sm
  show ?thesis
    unfolding s by (auto simp: p g)
qed

text \<open>Ties are not broken by the last candidate: \<open>1.2.4\<close> and \<open>1.2.4+build\<close> are both
  patch candidates for \<open>1.2.3\<close>, the comparator holds them equal, and the first is kept.
  From \<open>2^53\<close> on the candidate kept need not have the greatest tuple: of
  \<open>1.0.9007199254740992\<close> and \<open>1.0.9007199254740993\<close> the first is kept.\<close>

theorem tier_maximum_last_wins_counterexample:
  "candidate_of (patch_tier (enat 1, enat 2, enat 3)) ''1.2.4'' \<and>
   candidate_of (patch_tier (enat 1, enat 2, enat 3)) ''1.2.4+build'' \<and>
   compare ''1.2.4+build'' ''1.2.4'' = Inr (Finite 0) \<and>
   getUpgradeOptions ''1.2.3'' [''1.2.4'', ''1.2.4+build''] ''2.0.0'' =
     Inr \<lparr>major = None, minor = None, patch = Some ''1.2.4'',
          prerelease = None, latest = ''2.0.0''\<rparr> \<and>
   getUpgradeOptions ''1.0.0'' [''1.0.9007199254740992'', ''1.0.9007199254740993''] ''2.0.0'' =
     Inr \<lparr>major = None, minor = None, patch = Some ''1.0.9007199254740992'',
          prerelease = None, latest = ''2.0.0''\<rparr> \<and>
   tuple_less ''1.0.9007199254740992'' ''1.0.9007199254740993''"
proof -
  have 1: "candidate_of (patch_tier (enat 1, enat 2, enat 3)) ''1.2.4''"
    "candidate_of (patch_tier (enat 1, enat 2, enat 3)) ''1.2.4+build''"
    by (simp_all add: candidate_of_def patch_tier_def evaluation)
  have 2: "compare ''1.2.4+build'' ''1.2.4'' = Inr (Finite 0)"
    by (simp add: evaluation)
  have 3: "getUpgradeOptions ''1.2.3'' [''1.2.4'', ''1.2.4+build''] ''2.0.0'' =
     Inr \<lparr>major = None, minor = None, patch = Some ''1.2.4'',
          prerelease = None, latest = ''2.0.0''\<rparr>"
    by (simp add: classifier_evaluation)
  have 4: "getUpgradeOptions ''1.0.0'' [''1.0.9007199254740992'', ''1.0.9007199254740993''] ''2.0.0'' =
     Inr \<lparr>major = None, minor = None, patch = Some ''1.0.9007199254740992'',
          prerelease = None, latest = ''2.0.0''\<rparr>"
    by (simp add: classifier_evaluation)
  have 5: "tuple_less ''1.0.9007199254740992'' ''1.0.9007199254740993''"
    by (simp add: tuple_less_def lex_less_def tuple_evaluation)
  from 1 2 3 4 5 show ?thesis by simp
qed

text \<open>
  Claim C6. For every current version that parses, \<open>getUpgradeOptions\<close> returns options
  whose \<open>prerelease\<close> field is the latest tag exactly when the latest tag has a prerelease
  marker and the current version has none, and is absent otherwise.
\<close>

theorem prerelease_field:
  assumes "parseSemverTuple current = Some c"
  shows "\<exists>r. getUpgradeOptions current allVersions latestTag = Inr r \<and>
     (prerelease r = Some latestTag \<longleftrightarrow> includes_dash latestTag \<and> \<not> includes_dash current) \<and>
     (prerelease r = None \<longleftrightarrow> \<not> (includes_dash latestTag \<and> \<not> includes_dash current))"
  using getUpgradeOptions_parsed [OF assms, of allVersions latestTag] by auto

theorem prerelease_field_witness:
  "parseSemverTuple ''1.0.0'' = Some (1, 0, 0) \<and>
   includes_dash ''2.0.0-beta.1'' \<and> \<not> includes_dash ''1.0.0'' \<and>
   (\<exists>r. getUpgradeOptions ''1.0.0'' [''2.0.0-beta.1''] ''2.0.0-beta.1'' = Inr r \<and>
        prerelease r = Some ''2.0.0-beta.1'')"
proof -
  have p: "parseSemverTuple ''1.0.0'' = Some (1, 0, 0)"
    by (simp add: evaluation one_enat_def zero_enat_def)
  have d: "includes_dash ''2.0.0-beta.1''" "\<not> includes_dash ''1.0.0''"
    by (simp_all add: includes_dash_def)
  from prerelease_field [OF p, of "[''2.0.0-beta.1'']" "''2.0.0-beta.1''"] d p
  show ?thesis by auto
qed

text \<open>
  Claim C7. For every current version without a tuple, \<open>getUpgradeOptions\<close> returns
  exactly \<^verbatim>\<open>{ latest: latestTag }\<close>, whatever the candidates are and whether or not the
  latest tag has a prerelease marker.
\<close>

theorem unparseable_current:
  assumes "parseSemverTuple current = None"
  shows "getUpgradeOptions current allVersions latestTag =
     Inr \<lparr>major = None, minor = None, patch = None, prerelease = None, latest = latestTag\<rparr>"
  using assms by (simp add: getUpgradeOptions_def)

theorem unparseable_current_witness:
  "parseSemverTuple ''workspace:*'' = None \<and>
   getUpgradeOptions ''workspace:*'' [''1.0.0'', ''2.0.0''] ''3.0.0-beta.1'' =
     Inr \<lparr>major = None, minor = None, patch = None, prerelease = None,
          latest = ''3.0.0-beta.1''\<rparr>"
proof -
  have p: "parseSemverTuple ''workspace:*'' = None"
    by (simp add: evaluation)
  from unparseable_current [OF p, of "[''1.0.0'', ''2.0.0'']" "''3.0.0-beta.1''"] p
  show ?thesis by simp
qed

section \<open>Normalizing a packument\<close>

lemma dom_fromEntries: "dom (fromEntries es) = fst ` set es"
  by (simp add: fromEntries_def dom_map_of_conv_image_fst)

lemma get_property_plain:
  "\<not> inherited k \<Longrightarrow> get_property obj k = (case obj k of Some x \<Rightarrow> Own x | None \<Rightarrow> Undefined)"
  by (simp add: get_property_def)

lemma truthy_property_plain:
  "\<not> inherited k \<Longrightarrow> truthy_property (get_property obj k) \<longleftrightarrow> truthy (obj k)"
  by (simp add: get_property_def truthy_property_def truthy_def split: option.splits)

lemma dom_resolvedVersions:
  assumes "list_all (\<lambda>(v, pv). \<not> inherited v) (versions pkg)"
  shows "dom (resolvedVersions pkg) = surviving pkg"
proof -
  from assms have plain: "\<not> inherited v" if "(v, pv) \<in> set (versions pkg)" for v pv
    using that by (auto simp: list_all_iff)
  have "filter (\<lambda>(v, pv). truthy_property (get_property (time pkg) v)) (versions pkg) =
        filter (\<lambda>(v, pv). truthy (time pkg v)) (versions pkg)"
    by (rule filter_cong [OF refl]) (auto simp: truthy_property_plain dest: plain)
  then show ?thesis
    by (force simp: resolvedVersions_def dom_fromEntries surviving_def image_iff)
qed

lemma dom_upd_present: "rv v = Some r \<Longrightarrow> dom (rv(v \<mapsto> x)) = dom rv"
  by (simp add: insert_absorb domI)

lemma attach_tags_dom:
  "attach_tags tags rv = Inr rv' \<Longrightarrow> dom rv' = dom rv"
proof (induction tags arbitrary: rv)
  case Nil
  then show ?case by simp
next
  case (Cons a tags)
  obtain t v where a: "a = (t, v)" by (cases a)
  show ?case
  proof (cases "get_property rv v")
    case (Own r)
    then have r: "rv v = Some r"
      by (auto simp: get_property_def split: option.splits if_splits)
    from Cons.prems Own have rest: "attach_tags tags (rv(v \<mapsto> r\<lparr>tag := Some t\<rparr>)) = Inr rv'"
      by (simp add: a)
    from Cons.IH [OF rest] have "dom rv' = dom (rv(v \<mapsto> r\<lparr>tag := Some t\<rparr>))" .
    also have "\<dots> = dom rv" using r by (rule dom_upd_present)
    finally show ?thesis .
  next
    case Inherited
    with Cons.prems have "attach_tags tags rv = Inr rv'" by (simp add: a)
    from Cons.IH [OF this] show ?thesis .
  next
    case Undefined
    with Cons.prems show ?thesis by (simp add: a)
  qed
qed

lemma attach_tags_Inr_iff:
  assumes "list_all (\<lambda>(t, v). \<not> inherited v) tags"
  shows "(\<exists>rv'. attach_tags tags rv = Inr rv') \<longleftrightarrow> snd ` set tags \<subseteq> dom rv"
  using assms
proof (induction tags arbitrary: rv)
  case Nil
  show ?case by simp
next
  case (Cons a tags)
  obtain t v where a: "a = (t, v)" by (cases a)
  from Cons.prems have v: "\<not> inherited v" and rest: "list_all (\<lambda>(t, v). \<not> inherited v) tags"
    by (simp_all add: a)
  note IH = Cons.IH [OF rest]
  show ?case
  proof (cases "rv v")
    case None
    with v have "get_property rv v = Undefined" by (simp add: get_property_def)
    with None show ?thesis by (auto simp: a)
  next
    case (Some r)
    then have g: "get_property rv v = Own r" by (simp add: get_property_def)
    from Some have d: "dom (rv(v \<mapsto> r\<lparr>tag := Some t\<rparr>)) = dom rv"
      by (rule dom_upd_present)
    have "(\<exists>rv'. attach_tags (a # tags) rv = Inr rv') \<longleftrightarrow>
        (\<exists>rv'. attach_tags tags (rv(v \<mapsto> r\<lparr>tag := Some t\<rparr>)) = Inr rv')"
      by (simp add: a g)
    also have "\<dots> \<longleftrightarrow> snd ` set tags \<subseteq> dom rv"
      unfolding IH d ..
    also have "\<dots> \<longleftrightarrow> snd ` set (a # tags) \<subseteq> dom rv"
      using Some by (auto simp: a)
    finally show ?thesis .
  qed
qed

text \<open>Claim C10, as amended. For every fetched packument in which no version key and no
  target of a distribution tag is the name of a member of \<^verbatim>\<open>Object.prototype\<close>, the
  normalization in \<open>getPackageInfo\<close> returns a resolved packument (whose versions are
  those with a publish time) exactly when every distribution tag points at a version that
  is still there after the versions without a publish time are dropped; when some tag
  points at a version that is not, the tag assignment reads an undefined entry and the
  normalization ends in a \<^verbatim>\<open>TypeError\<close>.\<close>

theorem dist_tag_targets_must_survive:
  assumes "plain_names pkg"
  shows "((\<exists>r. resolvePackument pkg = Inr r \<and> dom (versions' r) = surviving pkg) \<longleftrightarrow>
      tag_targets pkg \<subseteq> surviving pkg) \<and>
   (resolvePackument pkg = Inl TypeError \<longleftrightarrow>
      (\<exists>v \<in> tag_targets pkg. v \<notin> surviving pkg))"
proof -
  from assms have pv: "list_all (\<lambda>(v, pv). \<not> inherited v) (versions pkg)"
    and pt: "list_all (\<lambda>(t, v). \<not> inherited v) (dist_tags pkg)"
    by (simp_all add: plain_names_def)
  have iff: "(\<exists>rv'. attach_tags (dist_tags pkg) (resolvedVersions pkg) = Inr rv') \<longleftrightarrow>
      tag_targets pkg \<subseteq> surviving pkg"
    by (simp add: attach_tags_Inr_iff [OF pt] dom_resolvedVersions [OF pv] tag_targets_def)
  show ?thesis
  proof (cases "attach_tags (dist_tags pkg) (resolvedVersions pkg)")
    case (Inl e)
    then have "resolvePackument pkg = Inl TypeError"
      by (cases e) (simp add: resolvePackument_def)
    with Inl iff show ?thesis by auto
  next
    case (Inr rv')
    then have "resolvePackument pkg = Inr \<lparr>versions' = rv'\<rparr>"
      by (simp add: resolvePackument_def)
    moreover from attach_tags_dom [OF Inr] have "dom rv' = surviving pkg"
      by (simp add: dom_resolvedVersions [OF pv])
    ultimately show ?thesis using Inr iff by auto
  qed
qed

theorem dist_tag_targets_must_survive_witness:
  "plain_names
     \<lparr>versions = [(''1.0.0'', \<lparr>dist = \<lparr>attestations = None\<rparr>, deprecated = None\<rparr>),
                  (''1.1.0'', \<lparr>dist = \<lparr>attestations = None\<rparr>, deprecated = None\<rparr>)],
      time = [''1.0.0'' \<mapsto> ''2024-01-01T00:00:00.000Z''],
      dist_tags = [(''latest'', ''1.1.0'')]\<rparr> \<and>
   resolvePackument
     \<lparr>versions = [(''1.0.0'', \<lparr>dist = \<lparr>attestations = None\<rparr>, deprecated = None\<rparr>),
                  (''1.1.0'', \<lparr>dist = \<lparr>attestations = None\<rparr>, deprecated = None\<rparr>)],
      time = [''1.0.0'' \<mapsto> ''2024-01-01T00:00:00.000Z''],
      dist_tags = [(''latest'', ''1.1.0'')]\<rparr> = Inl TypeError \<and>
   ''1.1.0'' \<notin> surviving
     \<lparr>versions = [(''1.0.0'', \<lparr>dist = \<lparr>attestations = None\<rparr>, deprecated = None\<rparr>),
                  (''1.1.0'', \<lparr>dist = \<lparr>attestations = None\<rparr>, deprecated = None\<rparr>)],
      time = [''1.0.0'' \<mapsto> ''2024-01-01T00:00:00.000Z''],
      dist_tags = [(''latest'', ''1.1.0'')]\<rparr> \<and>
   plain_names
     \<lparr>versions = [(''1.0.0'', \<lparr>dist = \<lparr>attestations = None\<rparr>, deprecated = None\<rparr>),
                  (''1.1.0'', \<lparr>dist = \<lparr>attestations = None\<rparr>, deprecated = None\<rparr>)],
      time = [''1.0.0'' \<mapsto> ''2024-01-01T00:00:00.000Z''],
      dist_tags = [(''latest'', ''1.0.0'')]\<rparr> \<and>
   (\<exists>r. resolvePackument
     \<lparr>versions = [(''1.0.0'', \<lparr>dist = \<lparr>attestations = None\<rparr>, deprecated = None\<rparr>),
                  (''1.1.0'', \<lparr>dist = \<lparr>attestations = None\<rparr>, deprecated = None\<rparr>)],
      time = [''1.0.0'' \<mapsto> ''2024-01-01T00:00:00.000Z''],
      dist_tags = [(''latest'', ''1.0.0'')]\<rparr> = Inr r \<and> dom (versions' r) = {''1.0.0''})"
proof -
  define vs where "vs = [(''1.0.0'', \<lparr>dist = \<lparr>attestations = None\<rparr>, deprecated = None\<rparr>),
                  (''1.1.0'', \<lparr>dist = \<lparr>attestations = None\<rparr>, deprecated = None\<rparr>)]"
  define bad where "bad = \<lparr>versions = vs,
      time = [''1.0.0'' \<mapsto> ''2024-01-01T00:00:00.000Z''],
      dist_tags = [(''latest'', ''1.1.0'')]\<rparr>"
  define good where "good = \<lparr>versions = vs,
      time = [''1.0.0'' \<mapsto> ''2024-01-01T00:00:00.000Z''],
      dist_tags = [(''latest'', ''1.0.0'')]\<rparr>"
  have pb: "plain_names bad" and pg: "plain_names good"
    by (simp_all add: plain_names_def bad_def good_def vs_def inherited_def Object_prototype_def)
  have sb: "surviving bad = {''1.0.0''}" and sg: "surviving good = {''1.0.0''}"
    by (auto simp: surviving_def bad_def good_def vs_def truthy_def)
  have tb: "tag_targets bad = {''1.1.0''}" and tg: "tag_targets good = {''1.0.0''}"
    by (simp_all add: tag_targets_def bad_def good_def)
  from dist_tag_targets_must_survive [OF pb] sb tb
  have 1: "resolvePackument bad = Inl TypeError" by simp
  from dist_tag_targets_must_survive [OF pg] sg tg
  have 2: "\<exists>r. resolvePackument good = Inr r \<and> dom (versions' r) = {''1.0.0''}" by simp
  from 1 2 sb pb pg show ?thesis
    unfolding bad_def good_def vs_def by simp
qed

text \<open>A name of a member of \<^verbatim>\<open>Object.prototype\<close> is found without being a version of
  the packument. The tag \<open>latest\<close> that points at \<open>toString\<close>, which is no version key,
  raises no error: the normalization returns the one version, without a tag. And a
  version key \<open>toString\<close> without a publish time is not dropped.\<close>

theorem dist_tag_targets_inherited_counterexample:
  "resolvePackument
     \<lparr>versions = [(''1.0.0'', \<lparr>dist = \<lparr>attestations = None\<rparr>, deprecated = None\<rparr>)],
      time = [''1.0.0'' \<mapsto> ''2024-01-01T00:00:00.000Z''],
      dist_tags = [(''latest'', ''toString'')]\<rparr> =
     Inr \<lparr>versions' = [''1.0.0'' \<mapsto>
            \<lparr>version = ''1.0.0'', tag = None, hasProvenance = False, deprecated' = None\<rparr>]\<rparr> \<and>
   ''toString'' \<notin> surviving
     \<lparr>versions = [(''1.0.0'', \<lparr>dist = \<lparr>attestations = None\<rparr>, deprecated = None\<rparr>)],
      time = [''1.0.0'' \<mapsto> ''2024-01-01T00:00:00.000Z''],
      dist_tags = [(''latest'', ''toString'')]\<rparr> \<and>
   resolvePackument
     \<lparr>versions = [(''toString'', \<lparr>dist = \<lparr>attestations = None\<rparr>, deprecated = None\<rparr>)],
      time = Map.empty,
      dist_tags = [(''latest'', ''toString'')]\<rparr> =
     Inr \<lparr>versions' = [''toString'' \<mapsto>
            \<lparr>version = ''toString'', tag = Some ''latest'', hasProvenance = False,
             deprecated' = None\<rparr>]\<rparr> \<and>
   surviving
     \<lparr>versions = [(''toString'', \<lparr>dist = \<lparr>attestations = None\<rparr>, deprecated = None\<rparr>)],
      time = Map.empty,
      dist_tags = [(''latest'', ''toString'')]\<rparr> = {}"
proof -
  have i: "inherited ''toString''" "\<not> inherited ''1.0.0''"
    by (simp_all add: inherited_def Object_prototype_def)
  have 1: "resolvePackument
     \<lparr>versions = [(''1.0.0'', \<lparr>dist = \<lparr>attestations = None\<rparr>, deprecated = None\<rparr>)],
      time = [''1.0.0'' \<mapsto> ''2024-01-01T00:00:00.000Z''],
      dist_tags = [(''latest'', ''toString'')]\<rparr> =
     Inr \<lparr>versions' = [''1.0.0'' \<mapsto>
            \<lparr>version = ''1.0.0'', tag = None, hasProvenance = False, deprecated' = None\<rparr>]\<rparr>"
    by (simp add: resolvePackument_def resolvedVersions_def fromEntries_def get_property_def
        truthy_property_def truthy_def i)
  have 2: "''toString'' \<notin> surviving
     \<lparr>versions = [(''1.0.0'', \<lparr>dist = \<lparr>attestations = None\<rparr>, deprecated = None\<rparr>)],
      time = [''1.0.0'' \<mapsto> ''2024-01-01T00:00:00.000Z''],
      dist_tags = [(''latest'', ''toString'')]\<rparr>"
    by (simp add: surviving_def)
  have 3: "resolvePackument
     \<lparr>versions = [(''toString'', \<lparr>dist = \<lparr>attestations = None\<rparr>, deprecated = None\<rparr>)],
      time = Map.empty,
      dist_tags = [(''latest'', ''toString'')]\<rparr> =
     Inr \<lparr>versions' = [''toString'' \<mapsto>
            \<lparr>version = ''toString'', tag = Some ''latest'', hasProvenance = False,
             deprecated' = None\<rparr>]\<rparr>"
    by (simp add: resolvePackument_def resolvedVersions_def fromEntries_def get_property_def
        truthy_property_def truthy_def i)
  have 4: "surviving
     \<lparr>versions = [(''toString'', \<lparr>dist = \<lparr>attestations = None\<rparr>, deprecated = None\<rparr>)],
      time = Map.empty,
      dist_tags = [(''latest'', ''toString'')]\<rparr> = {}"
    by (simp add: surviving_def truthy_def)
  from 1 2 3 4 show ?thesis by simp
qed

section \<open>The cache\<close>

lemma run_Nil [simp]: "run [] c = c"
  by (simp add: run_def)

lemma run_Cons [simp]: "run (ev # evs) c = run evs (step ev c)"
  by (simp add: run_def)

lemma run_append [simp]: "run (evs @ evs') c = run evs' (run evs c)"
  by (simp add: run_def)

lemma cache_inv_empty: "cache_inv empty_cache"
  by (simp add: cache_inv_def empty_cache_def)

lemma get_cached: "entries c name = Some e \<Longrightarrow> get name c = (e, c)"
  by (simp add: get_def)

lemma get_new:
  assumes "entries c name = None"
  shows "fst (get name c) = Pending (length (requests c))"
    "entries (snd (get name c)) = (entries c)(name \<mapsto> Pending (length (requests c)))"
    "in_flight (snd (get name c)) = (in_flight c)(length (requests c) \<mapsto> name)"
    "requests (snd (get name c)) = requests c @ [name]"
  using assms by (simp_all add: get_def)

lemma resolve_in_flight:
  assumes "in_flight c h = Some name"
  shows "entries (resolve h v c) = (entries c)(name \<mapsto> Resolved v)"
    "in_flight (resolve h v c) = (in_flight c)(h := None)"
    "requests (resolve h v c) = requests c"
  using assms by (simp_all add: resolve_def)

lemma reject_in_flight:
  assumes "in_flight c h = Some name"
  shows "entries (reject h c) = (entries c)(name := None)"
    "in_flight (reject h c) = (in_flight c)(h := None)"
    "requests (reject h c) = requests c"
  using assms by (simp_all add: reject_def)

lemma settle_not_in_flight:
  assumes "in_flight c h = None"
  shows "resolve h v c = c" "reject h c = c"
  using assms by (simp_all add: resolve_def reject_def)

lemma cache_inv_get:
  assumes "cache_inv c"
  shows "cache_inv (snd (get name c))"
proof (cases "entries c name")
  case (Some e)
  then have "get name c = (e, c)" by (rule get_cached)
  with assms show ?thesis by simp
next
  case None
  note g = get_new [OF None]
  have i: "entries c n = Some (Pending h) \<and> h < length (requests c)"
    if "in_flight c h = Some n" for h n
    using assms that unfolding cache_inv_def by blast
  have ii: "in_flight c h = Some n" if "entries c n = Some (Pending h)" for h n
    using assms that unfolding cache_inv_def by blast
  show ?thesis
    unfolding cache_inv_def g
  proof (rule conjI; intro allI impI)
    fix h n
    assume a: "((in_flight c)(length (requests c) \<mapsto> name)) h = Some n"
    show "((entries c)(name \<mapsto> Pending (length (requests c)))) n = Some (Pending h) \<and>
        h < length (requests c @ [name])"
    proof (cases "h = length (requests c)")
      case True
      with a show ?thesis by simp
    next
      case False
      with a have f: "in_flight c h = Some n" by simp
      from i [OF f] None have "n \<noteq> name" by auto
      with i [OF f] show ?thesis by simp
    qed
  next
    fix n h
    assume a: "((entries c)(name \<mapsto> Pending (length (requests c)))) n = Some (Pending h)"
    show "((in_flight c)(length (requests c) \<mapsto> name)) h = Some n"
    proof (cases "n = name")
      case True
      with a show ?thesis by simp
    next
      case False
      with a have e: "entries c n = Some (Pending h)" by simp
      from i [OF ii [OF e]] have "h \<noteq> length (requests c)" by simp
      with ii [OF e] show ?thesis by simp
    qed
  qed
qed

lemma cache_inv_settle:
  assumes "cache_inv c"
  shows "cache_inv (resolve h v c)" "cache_inv (reject h c)"
proof -
  have i: "entries c n = Some (Pending h) \<and> h < length (requests c)"
    if "in_flight c h = Some n" for h n
    using assms that unfolding cache_inv_def by blast
  have ii: "in_flight c h = Some n" if "entries c n = Some (Pending h)" for h n
    using assms that unfolding cache_inv_def by blast
  have other: "n' \<noteq> name" if "in_flight c h = Some name" "in_flight c h' = Some n'" "h' \<noteq> h"
    for name n' h'
    using i [OF that(1)] i [OF that(2)] that(3) by auto
  show "cache_inv (resolve h v c)"
  proof (cases "in_flight c h")
    case None
    with assms show ?thesis by (simp add: settle_not_in_flight)
  next
    case (Some name)
    note r = resolve_in_flight [OF Some]
    show ?thesis
      unfolding cache_inv_def r
    proof (rule conjI; intro allI impI)
      fix h' n
      assume "((in_flight c)(h := None)) h' = Some n"
      then have h': "h' \<noteq> h" and f: "in_flight c h' = Some n"
        by (auto split: if_splits)
      from other [OF Some f h'] i [OF f]
      show "((entries c)(name \<mapsto> Resolved v)) n = Some (Pending h') \<and>
          h' < length (requests c)"
        by simp
    next
      fix n h'
      assume "((entries c)(name \<mapsto> Resolved v)) n = Some (Pending h')"
      then have n: "n \<noteq> name" and e: "entries c n = Some (Pending h')"
        by (auto split: if_splits)
      from ii [OF e] Some n have "h' \<noteq> h" by auto
      with ii [OF e] show "((in_flight c)(h := None)) h' = Some n"
        by simp
    qed
  qed
  show "cache_inv (reject h c)"
  proof (cases "in_flight c h")
    case None
    with assms show ?thesis by (simp add: settle_not_in_flight)
  next
    case (Some name)
    note r = reject_in_flight [OF Some]
    show ?thesis
      unfolding cache_inv_def r
    proof (rule conjI; intro allI impI)
      fix h' n
      assume "((in_flight c)(h := None)) h' = Some n"
      then have h': "h' \<noteq> h" and f: "in_flight c h' = Some n"
        by (auto split: if_splits)
      from other [OF Some f h'] i [OF f]
      show "((entries c)(name := None)) n = Some (Pending h') \<and>
          h' < length (requests c)"
        by simp
    next
      fix n h'
      assume "((entries c)(name := None)) n = Some (Pending h')"
      then have n: "n \<noteq> name" and e: "entries c n = Some (Pending h')"
        by (auto split: if_splits)
      from ii [OF e] Some n have "h' \<noteq> h" by auto
      with ii [OF e] show "((in_flight c)(h := None)) h' = Some n"
        by simp
    qed
  qed
qed

lemma cache_inv_step: "cache_inv c \<Longrightarrow> cache_inv (step ev c)"
  by (cases ev) (simp_all add: cache_inv_get cache_inv_settle)

lemma cache_inv_run: "cache_inv c \<Longrightarrow> cache_inv (run evs c)"
  by (induction evs arbitrary: c) (simp_all add: cache_inv_step)

lemma step_entries_origin:
  assumes "cache_inv c" "entries (step ev c) name \<noteq> None"
  shows "entries c name \<noteq> None \<or> ev = Get name"
proof (cases ev)
  case (Get n)
  show ?thesis
  proof (cases "entries c n")
    case None
    from assms(2) show ?thesis
      unfolding Get step.simps get_new(2) [OF None] by (auto split: if_splits)
  next
    case (Some e)
    with assms(2) Get show ?thesis by (simp add: get_cached)
  qed
next
  case (Resolve h v)
  show ?thesis
  proof (cases "in_flight c h")
    case None
    with assms(2) Resolve show ?thesis by (simp add: settle_not_in_flight)
  next
    case (Some n)
    from assms(1) Some have "entries c n \<noteq> None" unfolding cache_inv_def by blast
    with assms(2) show ?thesis
      unfolding Resolve step.simps resolve_in_flight(1) [OF Some] by (auto split: if_splits)
  qed
next
  case (Reject h)
  show ?thesis
  proof (cases "in_flight c h")
    case None
    with assms(2) Reject show ?thesis by (simp add: settle_not_in_flight)
  next
    case (Some n)
    from assms(2) show ?thesis
      unfolding Reject step.simps reject_in_flight(1) [OF Some] by (auto split: if_splits)
  qed
qed

lemma run_entries_origin:
  assumes "cache_inv c" "entries (run evs c) name \<noteq> None"
  shows "entries c name \<noteq> None \<or> Get name \<in> set evs"
  using assms
proof (induction evs arbitrary: c)
  case Nil
  then show ?case by simp
next
  case (Cons ev evs)
  from Cons.IH [OF cache_inv_step [OF Cons.prems(1)]] Cons.prems(2)
  have "entries (step ev c) name \<noteq> None \<or> Get name \<in> set evs" by simp
  with step_entries_origin [OF Cons.prems(1)] show ?case by auto
qed

lemma first_get:
  assumes "Get name \<notin> set evs"
  shows "entries (run evs empty_cache) name = None"
proof (rule ccontr)
  assume "entries (run evs empty_cache) name \<noteq> None"
  from run_entries_origin [OF cache_inv_empty this] assms show False
    by (simp add: empty_cache_def)
qed

lemma step_pending_stable:
  assumes "cache_inv c" "entries c name = Some (Pending h)" "\<not> settles h ev"
  shows "entries (step ev c) name = Some (Pending h)"
proof (cases ev)
  case (Get n)
  show ?thesis
  proof (cases "entries c n")
    case None
    with assms(2) have "n \<noteq> name" by auto
    with assms(2) show ?thesis
      unfolding Get step.simps get_new(2) [OF None] by simp
  next
    case (Some e)
    with assms(2) Get show ?thesis by (simp add: get_cached)
  qed
next
  case (Resolve h' v)
  with assms(3) have h': "h' \<noteq> h" by (simp add: settles_def)
  show ?thesis
  proof (cases "in_flight c h'")
    case None
    with assms(2) Resolve show ?thesis by (simp add: settle_not_in_flight)
  next
    case (Some n)
    from assms(1) Some have "entries c n = Some (Pending h')" unfolding cache_inv_def by blast
    with assms(2) h' have "n \<noteq> name" by auto
    with assms(2) show ?thesis
      unfolding Resolve step.simps resolve_in_flight(1) [OF Some] by simp
  qed
next
  case (Reject h')
  with assms(3) have h': "h' \<noteq> h" by (simp add: settles_def)
  show ?thesis
  proof (cases "in_flight c h'")
    case None
    with assms(2) Reject show ?thesis by (simp add: settle_not_in_flight)
  next
    case (Some n)
    from assms(1) Some have "entries c n = Some (Pending h')" unfolding cache_inv_def by blast
    with assms(2) h' have "n \<noteq> name" by auto
    with assms(2) show ?thesis
      unfolding Reject step.simps reject_in_flight(1) [OF Some] by simp
  qed
qed

lemma run_pending_stable:
  assumes "cache_inv c" "entries c name = Some (Pending h)" "\<forall>ev \<in> set evs. \<not> settles h ev"
  shows "entries (run evs c) name = Some (Pending h)"
  using assms
proof (induction evs arbitrary: c)
  case Nil
  then show ?case by simp
next
  case (Cons ev evs)
  from Cons.prems(3) have ev: "\<not> settles h ev" and rest: "\<forall>ev \<in> set evs. \<not> settles h ev"
    by simp_all
  from Cons.IH [OF cache_inv_step [OF Cons.prems(1)]
      step_pending_stable [OF Cons.prems(1,2) ev] rest]
  show ?case by simp
qed

lemma step_resolved_stable:
  assumes "cache_inv c" "entries c name = Some (Resolved v)"
  shows "entries (step ev c) name = Some (Resolved v)"
proof (cases ev)
  case (Get n)
  show ?thesis
  proof (cases "entries c n")
    case None
    with assms(2) have "n \<noteq> name" by auto
    with assms(2) show ?thesis
      unfolding Get step.simps get_new(2) [OF None] by simp
  next
    case (Some e)
    with assms(2) Get show ?thesis by (simp add: get_cached)
  qed
next
  case (Resolve h' v')
  show ?thesis
  proof (cases "in_flight c h'")
    case None
    with assms(2) Resolve show ?thesis by (simp add: settle_not_in_flight)
  next
    case (Some n)
    from assms(1) Some have "entries c n = Some (Pending h')" unfolding cache_inv_def by blast
    with assms(2) have "n \<noteq> name" by auto
    with assms(2) show ?thesis
      unfolding Resolve step.simps resolve_in_flight(1) [OF Some] by simp
  qed
next
  case (Reject h')
  show ?thesis
  proof (cases "in_flight c h'")
    case None
    with assms(2) Reject show ?thesis by (simp add: settle_not_in_flight)
  next
    case (Some n)
    from assms(1) Some have "entries c n = Some (Pending h')" unfolding cache_inv_def by blast
    with assms(2) have "n \<noteq> name" by auto
    with assms(2) show ?thesis
      unfolding Reject step.simps reject_in_flight(1) [OF Some] by simp
  qed
qed

lemma run_resolved_stable:
  assumes "cache_inv c" "entries c name = Some (Resolved v)"
  shows "entries (run evs c) name = Some (Resolved v)"
  using assms
proof (induction evs arbitrary: c)
  case Nil
  then show ?case by simp
next
  case (Cons ev evs)
  from Cons.IH [OF cache_inv_step [OF Cons.prems(1)] step_resolved_stable [OF Cons.prems]]
  show ?case by simp
qed

lemma get_returns_entry:
  assumes "fst (get name c) = e"
  shows "entries (snd (get name c)) name = Some e"
proof (cases "entries c name")
  case None
  from assms show ?thesis
    unfolding get_new(2) [OF None] get_new(1) [OF None] by simp
next
  case (Some e')
  with assms show ?thesis by (simp add: get_cached)
qed

text \<open>Claim C8. In every state \<open>c\<close> the cache reaches from the empty cache: the first call
  for a name initiates one fetch and returns a pending handle; every call for the name
  made while that fetch has not settled, whatever else happens in between, returns the
  same handle and initiates nothing; no two fetches in flight are for the same name; and
  once a fetch in flight for the name resolves, every later call for the name, whatever
  else happens in between, returns the resolved value and initiates nothing.\<close>

theorem cache_coalescing:
  fixes evs evs' :: "'v event list"
  assumes c: "c = run evs empty_cache"
  shows
    "(Get name \<notin> set evs \<longrightarrow>
        fst (get name c) = Pending (length (requests c)) \<and>
        requests (snd (get name c)) = requests c @ [name] \<and>
        in_flight (snd (get name c)) = (in_flight c)(length (requests c) \<mapsto> name) \<and>
        in_flight c (length (requests c)) = None) \<and>
     (\<forall>h. fst (get name c) = Pending h \<and> (\<forall>ev \<in> set evs'. \<not> settles h ev) \<longrightarrow>
        get name (run evs' (snd (get name c))) = (Pending h, run evs' (snd (get name c)))) \<and>
     (\<forall>h1 h2 n. in_flight c h1 = Some n \<and> in_flight c h2 = Some n \<longrightarrow> h1 = h2) \<and>
     (\<forall>h v. in_flight c h = Some name \<longrightarrow>
        get name (run evs' (resolve h v c)) = (Resolved v, run evs' (resolve h v c)))"
proof -
  have inv: "cache_inv c"
    unfolding c by (rule cache_inv_run [OF cache_inv_empty])
  have a: "fst (get name c) = Pending (length (requests c)) \<and>
        requests (snd (get name c)) = requests c @ [name] \<and>
        in_flight (snd (get name c)) = (in_flight c)(length (requests c) \<mapsto> name) \<and>
        in_flight c (length (requests c)) = None"
    if "Get name \<notin> set evs"
  proof -
    from first_get [OF that] have none: "entries c name = None" by (simp add: c)
    have "in_flight c (length (requests c)) = None"
    proof (cases "in_flight c (length (requests c))")
      case None
      then show ?thesis .
    next
      case (Some n)
      with inv have "length (requests c) < length (requests c)"
        unfolding cache_inv_def by blast
      then show ?thesis by simp
    qed
    with get_new [OF none] show ?thesis by simp
  qed
  have b: "get name (run evs' (snd (get name c))) = (Pending h, run evs' (snd (get name c)))"
    if "fst (get name c) = Pending h" "\<forall>ev \<in> set evs'. \<not> settles h ev" for h
  proof -
    have "entries (run evs' (snd (get name c))) name = Some (Pending h)"
      by (rule run_pending_stable [OF cache_inv_get [OF inv] get_returns_entry [OF that(1)] that(2)])
    then show ?thesis by (rule get_cached)
  qed
  have d: "h1 = h2" if "in_flight c h1 = Some n" "in_flight c h2 = Some n" for h1 h2 n
  proof -
    from inv that have "entries c n = Some (Pending h1)" "entries c n = Some (Pending h2)"
      unfolding cache_inv_def by blast+
    then show ?thesis by simp
  qed
  have e: "get name (run evs' (resolve h v c)) = (Resolved v, run evs' (resolve h v c))"
    if "in_flight c h = Some name" for h v
  proof -
    have "entries (resolve h v c) name = Some (Resolved v)"
      by (simp add: resolve_in_flight(1) [OF that])
    from run_resolved_stable [OF cache_inv_settle(1) [OF inv] this]
    have "entries (run evs' (resolve h v c)) name = Some (Resolved v)" .
    then show ?thesis by (rule get_cached)
  qed
  from a b d e show ?thesis by blast
qed

theorem cache_coalescing_witness:
  "fst (get ''vue'' (run [Get ''react''] (empty_cache :: nat cache))) = Pending 1 \<and>
   requests (snd (get ''vue'' (run [Get ''react''] (empty_cache :: nat cache)))) =
     [''react'', ''vue''] \<and>
   fst (get ''react'' (run [Get ''vue'', Get ''react'', Resolve 1 7, Reject 2]
          (snd (get ''react'' (run [Get ''react''] (empty_cache :: nat cache)))))) = Pending 0 \<and>
   requests (snd (get ''react'' (run [Get ''vue'', Get ''react'', Resolve 1 7, Reject 2]
          (snd (get ''react'' (run [Get ''react''] (empty_cache :: nat cache))))))) =
     [''react'', ''vue''] \<and>
   fst (get ''react'' (run [Get ''react'', Get ''vue'', Reject 1, Get ''vue'']
          (resolve 0 5 (run [Get ''react''] (empty_cache :: nat cache))))) = Resolved 5"
proof -
  define c :: "nat cache" where "c = run [Get ''react''] empty_cache"
  have ent: "entries c = [''react'' \<mapsto> Pending 0]"
    and fl: "in_flight c = [0 \<mapsto> ''react'']"
    and req: "requests c = [''react'']"
    by (simp_all add: c_def get_def empty_cache_def)
  have g: "fst (get ''react'' c) = Pending 0" "snd (get ''react'' c) = c"
    by (simp_all add: get_def ent)
  have ns: "\<forall>ev \<in> set [Get ''vue'', Get ''react'', Resolve 1 7, Reject 2 :: nat event].
      \<not> settles 0 ev"
    by (simp add: settles_def)
  note t1 = cache_coalescing [OF c_def, of "''vue''"]
  note t2 = cache_coalescing [OF c_def, of "''react''"
      "[Get ''vue'', Get ''react'', Resolve 1 7, Reject 2]"]
  note t3 = cache_coalescing [OF c_def, of "''react''"
      "[Get ''react'', Get ''vue'', Reject 1, Get ''vue'']"]
  from t1 have 1: "fst (get ''vue'' c) = Pending 1"
    "requests (snd (get ''vue'' c)) = [''react'', ''vue'']"
    by (simp_all add: req)
  from t2 g(1) ns have 2: "get ''react'' (run [Get ''vue'', Get ''react'', Resolve 1 7, Reject 2]
      (snd (get ''react'' c))) =
      (Pending 0, run [Get ''vue'', Get ''react'', Resolve 1 7, Reject 2] (snd (get ''react'' c)))"
    by blast
  have r2: "requests (run [Get ''vue'', Get ''react'', Resolve 1 7, Reject 2] c) =
      [''react'', ''vue'']"
    by (simp add: get_def ent fl req resolve_def reject_def)
  from t3 fl have 3: "get ''react'' (run [Get ''react'', Get ''vue'', Reject 1, Get ''vue'']
      (resolve 0 5 c)) =
      (Resolved 5, run [Get ''react'', Get ''vue'', Reject 1, Get ''vue''] (resolve 0 5 c))"
    by simp
  from 1 2 r2 3 show ?thesis
    unfolding c_def [symmetric] g(2) by simp
qed

end
